theory Spec2Isabelle
  imports Main "HOL-Library.Word" "HOL-Library.Multiset" "HOL-Library.Log_Nat"
begin

section \<open>Numbers of the source languages\<close>

text \<open>
  The example files compute with three kinds of numbers.
  \<^item> Ruby's \<open>Integer\<close> is unbounded: it is modelled as \<open>int\<close>.
  \<^item> Go's \<open>int\<close> is a 64-bit two's complement integer whose arithmetic wraps around:
    it is modelled as \<open>64 word\<close>, read back with \<open>sint\<close>.
  \<^item> JavaScript's and TypeScript's \<open>number\<close> is an IEEE-754 double. The functions modelled
    here only add and multiply integers, so a \<open>number\<close> is an integer-valued double
    \<open>Num i\<close>, an infinity or \<open>NaN\<close>. The exact sum or product is rounded to the nearest
    double, ties to even: integers of magnitude below \<open>2 ^ 53\<close> are exact, a larger one
    keeps its 53 leading bits (\<open>bitlen x\<close> is the number of binary digits of \<open>x\<close>), and a
    rounded magnitude of \<open>2 ^ 1024\<close> or more is an infinity. The two signed zeros are both
    \<open>Num 0\<close>; they are equal under \<open>===\<close>.
\<close>

datatype number = Num int | PosInf | NegInf | NaN

definition round_even :: "int \<Rightarrow> nat \<Rightarrow> int" where
  "round_even m e =
     (let q = m div 2 ^ e; r = m mod 2 ^ e; h = 2 ^ (e - 1)
      in (if h < r \<or> (r = h \<and> odd q) then q + 1 else q) * 2 ^ e)"

definition to_double :: "int \<Rightarrow> number" where
  "to_double x =
     (if \<bar>x\<bar> < 2 ^ 53 then Num x
      else let m = round_even \<bar>x\<bar> (nat (bitlen \<bar>x\<bar> - 53))
           in if 2 ^ 1024 \<le> m then (if x < 0 then NegInf else PosInf)
              else Num (sgn x * m))"

fun js_add :: "number \<Rightarrow> number \<Rightarrow> number" where
  "js_add (Num a) (Num b) = to_double (a + b)"
| "js_add NaN _ = NaN"
| "js_add _ NaN = NaN"
| "js_add PosInf NegInf = NaN"
| "js_add NegInf PosInf = NaN"
| "js_add PosInf _ = PosInf"
| "js_add _ PosInf = PosInf"
| "js_add NegInf _ = NegInf"
| "js_add _ NegInf = NegInf"

fun js_mul :: "number \<Rightarrow> number \<Rightarrow> number" where
  "js_mul (Num a) (Num b) = to_double (a * b)"
| "js_mul NaN _ = NaN"
| "js_mul _ NaN = NaN"
| "js_mul (Num a) PosInf = (if a = 0 then NaN else if 0 < a then PosInf else NegInf)"
| "js_mul (Num a) NegInf = (if a = 0 then NaN else if 0 < a then NegInf else PosInf)"
| "js_mul PosInf (Num b) = (if b = 0 then NaN else if 0 < b then PosInf else NegInf)"
| "js_mul NegInf (Num b) = (if b = 0 then NaN else if 0 < b then NegInf else PosInf)"
| "js_mul PosInf PosInf = PosInf"
| "js_mul NegInf NegInf = PosInf"
| "js_mul PosInf NegInf = NegInf"
| "js_mul NegInf PosInf = NegInf"

type_synonym go_int = "64 word"

section \<open>Fibonacci sequences\<close>

text \<open>
  TypeScript and JavaScript \<open>fibonacci\<close>: the guards for \<open>n <= 0\<close> and \<open>n === 1\<close>, then a
  \<open>while\<close> loop that pushes the sum of the last two elements until the array has \<open>n\<close>
  elements. The argument is an integer \<open>n\<close>. Inside the loop the array has at least two
  elements, so both reads are in range.
\<close>

function fib_while :: "int \<Rightarrow> number list \<Rightarrow> number list" where
  "fib_while n sequence =
     (if int (length sequence) < n
      then fib_while n (sequence @
             [js_add (sequence ! (length sequence - 1)) (sequence ! (length sequence - 2))])
      else sequence)"
  by pat_completeness auto
termination
  by (relation "measure (\<lambda>(n, s). nat (n - int (length s)))") auto

declare fib_while.simps [simp del]

definition fibonacci_ts :: "int \<Rightarrow> number list" where
  "fibonacci_ts n =
     (if n \<le> 0 then [] else if n = 1 then [Num 0] else fib_while n [Num 0, Num 1])"

definition fibonacci_js :: "int \<Rightarrow> number list" where
  "fibonacci_js n =
     (if n \<le> 0 then [] else if n = 1 then [Num 0] else fib_while n [Num 0, Num 1])"

text \<open>Ruby \<open>MathUtils.fibonacci\<close>: the same loop on unbounded integers.\<close>

function rb_while :: "int \<Rightarrow> int list \<Rightarrow> int list" where
  "rb_while n sequence =
     (if int (length sequence) < n
      then rb_while n (sequence @
             [sequence ! (length sequence - 1) + sequence ! (length sequence - 2)])
      else sequence)"
  by pat_completeness auto
termination
  by (relation "measure (\<lambda>(n, s). nat (n - int (length s)))") auto

declare rb_while.simps [simp del]

definition fibonacci_rb :: "int \<Rightarrow> int list" where
  "fibonacci_rb n =
     (if n \<le> 0 then [] else if n = 1 then [0] else rb_while n [0, 1])"

text \<open>
  Go \<open>Fibonacci\<close>: a slice of \<open>n\<close> zeros from \<open>make\<close>, the first two elements set, and a
  \<open>for\<close> loop from index 2 that stores the wrapping sum of the two elements before. The
  argument is a Go \<open>int\<close>, compared as a signed number. The loop counter stays below the
  bound, so it does not overflow; it is a natural number in the model.
\<close>

function go_for :: "nat \<Rightarrow> int \<Rightarrow> go_int list \<Rightarrow> go_int list" where
  "go_for i n sequence =
     (if int i < n
      then go_for (i + 1) n (sequence[i := sequence ! (i - 1) + sequence ! (i - 2)])
      else sequence)"
  by pat_completeness auto
termination
  by (relation "measure (\<lambda>(i, n, s). nat (n - int i))") auto

declare go_for.simps [simp del]

definition Fibonacci_go :: "go_int \<Rightarrow> go_int list" where
  "Fibonacci_go n =
     (if sint n \<le> 0 then [] else if sint n = 1 then [0]
      else go_for 2 (sint n) ((replicate (nat (sint n)) 0)[0 := 0, 1 := 1]))"

text \<open>
  The sequence of the documentation: \<open>fib_nat k\<close> is the \<open>k\<close>-th Fibonacci number,
  \<open>first_fibs n\<close> the first \<open>n\<close> of them, and \<open>fib_sequence n xs\<close> says that \<open>xs\<close> is empty
  for \<open>n \<le> 0\<close>, \<open>[0]\<close> for \<open>n = 1\<close>, and otherwise has \<open>n\<close> elements starting 0, 1 with each
  later element the sum of the previous two.
\<close>

fun fib_nat :: "nat \<Rightarrow> int" where
  "fib_nat 0 = 0"
| "fib_nat (Suc 0) = 1"
| "fib_nat (Suc (Suc k)) = fib_nat (Suc k) + fib_nat k"

definition first_fibs :: "int \<Rightarrow> int list" where
  "first_fibs n = map fib_nat [0..<nat n]"

definition fib_sequence :: "int \<Rightarrow> int list \<Rightarrow> bool" where
  "fib_sequence n xs \<longleftrightarrow>
     (if n \<le> 0 then xs = []
      else if n = 1 then xs = [0]
      else length xs = nat n \<and> xs ! 0 = 0 \<and> xs ! 1 = 1 \<and>
           (\<forall>i < nat n. 2 \<le> i \<longrightarrow> xs ! i = xs ! (i - 1) + xs ! (i - 2)))"

section \<open>Factorial\<close>

text \<open>
  JavaScript \<open>factorial\<close>: recursion on the integer \<open>n\<close> with double-precision
  multiplication. The depth of the call stack is not modelled.
\<close>

function factorial_js :: "int \<Rightarrow> number" where
  "factorial_js n = (if n \<le> 1 then Num 1 else js_mul (Num n) (factorial_js (n - 1)))"
  by pat_completeness auto
termination
  by (relation "measure nat") auto

declare factorial_js.simps [simp del]

text \<open>
  Ruby \<open>MathUtils.factorial\<close>: \<open>(1..n).reduce(:*)\<close> folds the range from its first element;
  \<open>reduce\<close> of an empty range is \<open>nil\<close>.
\<close>

fun reduce :: "('a \<Rightarrow> 'a \<Rightarrow> 'a) \<Rightarrow> 'a list \<Rightarrow> 'a option" where
  "reduce f [] = None"
| "reduce f (x # xs) = Some (foldl f x xs)"

definition factorial_rb :: "int \<Rightarrow> int option" where
  "factorial_rb n = (if n \<le> 1 then Some 1 else reduce (*) [1..n])"

section \<open>Division helpers\<close>

text \<open>
  TypeScript \<open>divide\<close>, Go \<open>divide\<close> and Go \<open>SafeDivide\<close> work on doubles. Only three
  operations of the number type occur: the literal \<open>0\<close>, the comparison with it (\<open>===\<close>, \<open>==\<close>)
  and the division. They are taken as a record of operations on a carrier \<open>'f\<close>, so that nothing is
  assumed about rounding, infinities or \<open>NaN\<close>. The TypeScript result is the tagged union
  \<open>Result\<close>; a Go result is the pair of the value and the error, \<open>None\<close> for \<open>nil\<close>.
\<close>

record 'f float_ops =
  fzero :: 'f
  feq :: "'f \<Rightarrow> 'f \<Rightarrow> bool"
  fdiv :: "'f \<Rightarrow> 'f \<Rightarrow> 'f"

datatype 'a Result = Success 'a | Failure string

definition divide_ts :: "'f float_ops \<Rightarrow> 'f \<Rightarrow> 'f \<Rightarrow> 'f Result" where
  "divide_ts ops a b =
     (if feq ops b (fzero ops) then Failure ''Division by zero''
      else Success (fdiv ops a b))"

definition divide_go :: "'f float_ops \<Rightarrow> 'f \<Rightarrow> 'f \<Rightarrow> 'f \<times> string option" where
  "divide_go ops a b =
     (if feq ops b (fzero ops) then (fzero ops, Some ''division by zero'')
      else (fdiv ops a b, None))"

definition ErrDivisionByZero :: string where
  "ErrDivisionByZero = ''division by zero''"

definition SafeDivide :: "'f float_ops \<Rightarrow> 'f \<Rightarrow> 'f \<Rightarrow> 'f \<times> string option" where
  "SafeDivide ops a b =
     (if feq ops b (fzero ops) then (fzero ops, Some ErrDivisionByZero)
      else (fdiv ops a b, None))"

text \<open>An instance of the operations, on rational numbers.\<close>

definition rat_ops :: "rat float_ops" where
  "rat_ops = \<lparr>fzero = 0, feq = (=), fdiv = (/)\<rparr>"

section \<open>The worker pool\<close>

text \<open>
  The Go program creates two buffered channels \<open>jobs\<close> and \<open>results\<close>, starts three \<open>worker\<close>
  goroutines, sends the jobs 1 to 5, closes \<open>jobs\<close>, starts a goroutine that waits for the
  workers (\<open>wg.Wait()\<close>) and then closes \<open>results\<close>, and collects the results until \<open>results\<close>
  is closed and empty. The model is a transition system on the state of the channels and of
  the goroutines; a step is one channel operation of one goroutine, and a run interleaves the
  steps in any order. The number of workers, the two capacities, the transform and the list
  of jobs are parameters; the program of the source is the instance
  \<open>3, 5, 5, double, [1, 2, 3, 4, 5]\<close>.
\<close>

subsection \<open>Channels\<close>

text \<open>
  A channel of \<open>int\<close>: the buffered values, the capacity given to \<open>make\<close>, and whether
  \<open>close\<close> was called. An operation proceeds, blocks or panics, as in Go: a send panics on a
  closed channel, blocks while the buffer is full and appends otherwise; a receive takes the
  oldest value, reports a closed and empty channel (the end of a \<open>range\<close> loop) and blocks on
  an open and empty one; \<open>close\<close> panics on a closed channel.
\<close>

record chan =
  buf :: "go_int list"
  cap :: nat
  is_closed :: bool

datatype 'a outcome = Proceeds 'a | Blocks | Panics string

definition chan_send :: "chan \<Rightarrow> go_int \<Rightarrow> chan outcome" where
  "chan_send c v =
     (if is_closed c then Panics ''send on closed channel''
      else if length (buf c) < cap c then Proceeds (c\<lparr>buf := buf c @ [v]\<rparr>)
      else Blocks)"

definition chan_recv :: "chan \<Rightarrow> (go_int option \<times> chan) outcome" where
  "chan_recv c =
     (case buf c of
        v # rest \<Rightarrow> Proceeds (Some v, c\<lparr>buf := rest\<rparr>)
      | [] \<Rightarrow> if is_closed c then Proceeds (None, c) else Blocks)"

definition chan_close :: "chan \<Rightarrow> chan outcome" where
  "chan_close c =
     (if is_closed c then Panics ''close of closed channel''
      else Proceeds (c\<lparr>is_closed := True\<rparr>))"

subsection \<open>The state of the program\<close>

text \<open>
  The worker computes \<open>job * 2\<close>. The model takes the transform as a parameter: a function that
  returns a value (\<open>Inr\<close>) or panics (\<open>Inl\<close> with the message). \<open>double\<close> is the transform of
  the source, with Go's wrapping multiplication; \<open>returning f\<close> is any transform that never
  panics.
\<close>

type_synonym transform = "go_int \<Rightarrow> string + go_int"

definition double :: transform where
  "double job = Inr (job * 2)"

definition returning :: "(go_int \<Rightarrow> go_int) \<Rightarrow> transform" where
  "returning f job = Inr (f job)"

text \<open>
  A worker is at the head of its loop, waiting to receive a job (\<open>Fetching\<close>), has received
  \<open>job\<close> (\<open>Processing\<close>), has computed the result and waits to send it (\<open>Emitting\<close>), or has
  left the loop and called \<open>wg.Done()\<close> (\<open>Stopped\<close>). \<open>main\<close> is in the loop that spawns the
  workers (\<open>MSpawn k\<close>, with \<open>k\<close> workers still to spawn), in the loop that sends the jobs and
  then closes the channel (\<open>MSend\<close>), about to start the closing goroutine (\<open>MGoCloser\<close>), in
  the loop that collects the results (\<open>MRead\<close>), or past it (\<open>MDone\<close>). The closing goroutine
  is not started (\<open>CNone\<close>), in \<open>wg.Wait()\<close> (\<open>CWait\<close>), about to close \<open>results\<close> (\<open>CClose\<close>)
  or finished (\<open>CDone\<close>).
\<close>

datatype wstate = Fetching | Processing go_int | Emitting go_int | Stopped

datatype mpc = MSpawn nat | MSend | MGoCloser | MRead | MDone

datatype cstate = CNone | CWait | CClose | CDone

text \<open>
  The state: the two channels, the workers, the counter of the \<open>WaitGroup\<close>, the closing
  goroutine, the position of \<open>main\<close>, the jobs \<open>main\<close> has still to send, the slice
  \<open>workerResults\<close>, and the message of a panic once the program has crashed.
\<close>

record pool =
  jobs :: chan
  results :: chan
  workers :: "wstate list"
  wg :: nat
  closer :: cstate
  pc :: mpc
  pending :: "go_int list"
  workerResults :: "go_int list"
  crashed :: "string option"

text \<open>
  \<open>init w qc rc js\<close> is the state of \<open>main\<close> after \<open>make(chan int, qc)\<close> and
  \<open>make(chan int, rc)\<close>, with \<open>w\<close> the bound of the spawning loop and \<open>js\<close> the jobs of the
  sending loop.
\<close>

definition init :: "nat \<Rightarrow> nat \<Rightarrow> nat \<Rightarrow> go_int list \<Rightarrow> pool" where
  "init w qc rc js =
     \<lparr>jobs = \<lparr>buf = [], cap = qc, is_closed = False\<rparr>,
      results = \<lparr>buf = [], cap = rc, is_closed = False\<rparr>,
      workers = [], wg = 0, closer = CNone, pc = MSpawn w,
      pending = js, workerResults = [], crashed = None\<rparr>"

subsection \<open>Steps\<close>

text \<open>
  An unrecovered panic ends the program: the state keeps the message and no goroutine takes
  another step. \<open>submit\<close> is the statement \<open>jobs <- j\<close>.
\<close>

definition crash :: "string \<Rightarrow> pool \<Rightarrow> pool" where
  "crash m s = s\<lparr>crashed := Some m\<rparr>"

definition submit :: "pool \<Rightarrow> go_int \<Rightarrow> pool outcome" where
  "submit s job =
     (case chan_send (jobs s) job of
        Proceeds c \<Rightarrow> Proceeds (s\<lparr>jobs := c\<rparr>)
      | Blocks \<Rightarrow> Blocks
      | Panics m \<Rightarrow> Panics m)"

text \<open>
  One step of \<open>main\<close>: \<open>wg.Add(1); go worker(\<dots>)\<close> in the spawning loop; then \<open>jobs <- j\<close> for
  the next job, or \<open>close(jobs)\<close> after the last one; then the \<open>go\<close> statement of the closing
  goroutine; then one receive of \<open>for r := range results\<close>, which appends to \<open>workerResults\<close>
  or ends the loop.
\<close>

definition main_step :: "pool \<Rightarrow> pool option" where
  "main_step s =
     (case pc s of
        MSpawn (Suc k) \<Rightarrow>
          Some (s\<lparr>wg := wg s + 1, workers := workers s @ [Fetching], pc := MSpawn k\<rparr>)
      | MSpawn 0 \<Rightarrow> Some (s\<lparr>pc := MSend\<rparr>)
      | MSend \<Rightarrow>
          (case pending s of
             j # js \<Rightarrow>
               (case submit s j of
                  Proceeds s1 \<Rightarrow> Some (s1\<lparr>pending := js\<rparr>)
                | Blocks \<Rightarrow> None
                | Panics m \<Rightarrow> Some (crash m s))
           | [] \<Rightarrow>
               (case chan_close (jobs s) of
                  Proceeds c \<Rightarrow> Some (s\<lparr>jobs := c, pc := MGoCloser\<rparr>)
                | Blocks \<Rightarrow> None
                | Panics m \<Rightarrow> Some (crash m s)))
      | MGoCloser \<Rightarrow> Some (s\<lparr>closer := CWait, pc := MRead\<rparr>)
      | MRead \<Rightarrow>
          (case chan_recv (results s) of
             Proceeds (Some r, c) \<Rightarrow>
               Some (s\<lparr>results := c, workerResults := workerResults s @ [r]\<rparr>)
           | Proceeds (None, c) \<Rightarrow> Some (s\<lparr>pc := MDone\<rparr>)
           | Blocks \<Rightarrow> None
           | Panics m \<Rightarrow> Some (crash m s))
      | MDone \<Rightarrow> None)"

text \<open>
  One step of worker \<open>i\<close>: the receive of \<open>for job := range jobs\<close>, which ends the loop on a
  closed and empty channel (the deferred \<open>wg.Done()\<close> then runs, and panics on a counter
  of 0); the evaluation of the transform; the send \<open>results <- \<dots>\<close>.
\<close>

definition worker :: "transform \<Rightarrow> nat \<Rightarrow> pool \<Rightarrow> pool option" where
  "worker tf i s =
     (if length (workers s) \<le> i then None
      else case workers s ! i of
        Fetching \<Rightarrow>
          (case chan_recv (jobs s) of
             Proceeds (Some job, c) \<Rightarrow>
               Some (s\<lparr>jobs := c, workers := (workers s)[i := Processing job]\<rparr>)
           | Proceeds (None, c) \<Rightarrow>
               (if wg s = 0 then Some (crash ''sync: negative WaitGroup counter'' s)
                else Some (s\<lparr>workers := (workers s)[i := Stopped], wg := wg s - 1\<rparr>))
           | Blocks \<Rightarrow> None
           | Panics m \<Rightarrow> Some (crash m s))
      | Processing job \<Rightarrow>
          (case tf job of
             Inr v \<Rightarrow> Some (s\<lparr>workers := (workers s)[i := Emitting v]\<rparr>)
           | Inl m \<Rightarrow> Some (crash m s))
      | Emitting v \<Rightarrow>
          (case chan_send (results s) v of
             Proceeds c \<Rightarrow> Some (s\<lparr>results := c, workers := (workers s)[i := Fetching]\<rparr>)
           | Blocks \<Rightarrow> None
           | Panics m \<Rightarrow> Some (crash m s))
      | Stopped \<Rightarrow> None)"

text \<open>
  One step of the closing goroutine: \<open>wg.Wait()\<close> returns when the counter is 0; then
  \<open>close(results)\<close>.
\<close>

definition closer_step :: "pool \<Rightarrow> pool option" where
  "closer_step s =
     (case closer s of
        CNone \<Rightarrow> None
      | CWait \<Rightarrow> if wg s = 0 then Some (s\<lparr>closer := CClose\<rparr>) else None
      | CClose \<Rightarrow>
          (case chan_close (results s) of
             Proceeds c \<Rightarrow> Some (s\<lparr>results := c, closer := CDone\<rparr>)
           | Blocks \<Rightarrow> None
           | Panics m \<Rightarrow> Some (crash m s))
      | CDone \<Rightarrow> None)"

text \<open>
  On a channel of capacity 0 a send and a receive happen together: \<open>main\<close> hands the next job
  to a fetching worker (\<open>hand_job\<close>), an emitting worker hands its result to \<open>main\<close> in its
  collecting loop (\<open>hand_result\<close>).
\<close>

definition hand_job :: "nat \<Rightarrow> pool \<Rightarrow> pool option" where
  "hand_job i s =
     (case pending s of
        [] \<Rightarrow> None
      | j # js \<Rightarrow>
          if pc s = MSend \<and> cap (jobs s) = 0 \<and> \<not> is_closed (jobs s) \<and>
             i < length (workers s) \<and> workers s ! i = Fetching
          then Some (s\<lparr>pending := js, workers := (workers s)[i := Processing j]\<rparr>)
          else None)"

definition hand_result :: "nat \<Rightarrow> pool \<Rightarrow> pool option" where
  "hand_result i s =
     (if length (workers s) \<le> i then None
      else case workers s ! i of
        Emitting v \<Rightarrow>
          if pc s = MRead \<and> cap (results s) = 0 \<and> \<not> is_closed (results s)
          then Some (s\<lparr>workerResults := workerResults s @ [v],
                       workers := (workers s)[i := Fetching]\<rparr>)
          else None
      | _ \<Rightarrow> None)"

text \<open>
  An action names the goroutine that steps. \<open>exec\<close> is \<open>None\<close> when the goroutine is blocked
  or finished, or the program has crashed. \<open>run\<close> executes a schedule, \<open>enabled\<close> lists the
  actions that can step, \<open>reachable\<close> is reachability under any schedule, and
  \<open>inevitably P s\<close> says that every run from \<open>s\<close> reaches a state with \<open>P\<close>: no run from \<open>s\<close>
  is infinite or gets stuck before.
\<close>

datatype action = Main | Worker nat | Closer | HandJob nat | HandResult nat

definition exec :: "transform \<Rightarrow> action \<Rightarrow> pool \<Rightarrow> pool option" where
  "exec tf a s =
     (if crashed s \<noteq> None then None
      else case a of
        Main \<Rightarrow> main_step s
      | Worker i \<Rightarrow> worker tf i s
      | Closer \<Rightarrow> closer_step s
      | HandJob i \<Rightarrow> hand_job i s
      | HandResult i \<Rightarrow> hand_result i s)"

fun run :: "transform \<Rightarrow> action list \<Rightarrow> pool \<Rightarrow> pool option" where
  "run tf [] s = Some s"
| "run tf (a # as) s = (case exec tf a s of None \<Rightarrow> None | Some s' \<Rightarrow> run tf as s')"

definition candidates :: "pool \<Rightarrow> action list" where
  "candidates s =
     Main # Closer #
     concat (map (\<lambda>i. [Worker i, HandJob i, HandResult i]) [0..<length (workers s)])"

definition enabled :: "transform \<Rightarrow> pool \<Rightarrow> action list" where
  "enabled tf s = filter (\<lambda>a. exec tf a s \<noteq> None) (candidates s)"

inductive reachable :: "transform \<Rightarrow> pool \<Rightarrow> pool \<Rightarrow> bool" for tf s0 where
  start: "reachable tf s0 s0"
| step: "reachable tf s0 s \<Longrightarrow> exec tf a s = Some s' \<Longrightarrow> reachable tf s0 s'"

inductive inevitably :: "transform \<Rightarrow> (pool \<Rightarrow> bool) \<Rightarrow> pool \<Rightarrow> bool" for tf P where
  now: "P s \<Longrightarrow> inevitably tf P s"
| later: "\<exists>a s'. exec tf a s = Some s' \<Longrightarrow>
          (\<And>a s'. exec tf a s = Some s' \<Longrightarrow> inevitably tf P s') \<Longrightarrow> inevitably tf P s"

subsection \<open>Accounting\<close>

text \<open>
  \<open>accounted f s\<close> is the multiset of results that the jobs in the state stand for, with \<open>f\<close>
  applied to those not yet transformed: the jobs still to be sent, those in the job channel,
  the one a worker holds, the results in the result channel and those collected.
  \<open>live\<close> counts the workers that have not stopped.
\<close>

fun hold :: "(go_int \<Rightarrow> go_int) \<Rightarrow> wstate \<Rightarrow> go_int multiset" where
  "hold f (Processing job) = {#f job#}"
| "hold f (Emitting v) = {#v#}"
| "hold f Fetching = {#}"
| "hold f Stopped = {#}"

definition in_flight :: "(go_int \<Rightarrow> go_int) \<Rightarrow> wstate list \<Rightarrow> go_int multiset" where
  "in_flight f ws = sum_list (map (hold f) ws)"

definition accounted :: "(go_int \<Rightarrow> go_int) \<Rightarrow> pool \<Rightarrow> go_int multiset" where
  "accounted f s =
     image_mset f (mset (pending s)) + image_mset f (mset (buf (jobs s))) +
     in_flight f (workers s) + mset (buf (results s)) + mset (workerResults s)"

definition live :: "wstate list \<Rightarrow> nat" where
  "live ws = length (filter (\<lambda>w. w \<noteq> Stopped) ws)"

definition all_stopped :: "pool \<Rightarrow> bool" where
  "all_stopped s \<longleftrightarrow> list_all (\<lambda>w. w = Stopped) (workers s)"

text \<open>
  The invariant of the pool with a transform that never panics, and a measure that every
  step decreases.
\<close>

fun to_spawn :: "mpc \<Rightarrow> nat" where
  "to_spawn (MSpawn k) = k"
| "to_spawn _ = 0"

fun sending :: "mpc \<Rightarrow> bool" where
  "sending (MSpawn k) = True"
| "sending MSend = True"
| "sending _ = False"

fun reading :: "mpc \<Rightarrow> bool" where
  "reading MRead = True"
| "reading MDone = True"
| "reading _ = False"

definition pool_inv ::
  "nat \<Rightarrow> nat \<Rightarrow> nat \<Rightarrow> (go_int \<Rightarrow> go_int) \<Rightarrow> go_int list \<Rightarrow> pool \<Rightarrow> bool" where
  "pool_inv w qc rc f js s \<longleftrightarrow>
     crashed s = None \<and>
     cap (jobs s) = qc \<and> cap (results s) = rc \<and>
     length (buf (jobs s)) \<le> qc \<and> length (buf (results s)) \<le> rc \<and>
     accounted f s = image_mset f (mset js) \<and>
     wg s = live (workers s) \<and>
     length (workers s) + to_spawn (pc s) = w \<and>
     (sending (pc s) \<or> pending s = []) \<and>
     (is_closed (jobs s) \<longleftrightarrow> \<not> sending (pc s)) \<and>
     (closer s = CNone \<longleftrightarrow> \<not> reading (pc s)) \<and>
     (closer s = CClose \<longrightarrow> wg s = 0) \<and>
     (is_closed (results s) \<longleftrightarrow> closer s = CDone) \<and>
     (is_closed (results s) \<longrightarrow> wg s = 0) \<and>
     (Stopped \<in> set (workers s) \<longrightarrow> is_closed (jobs s) \<and> buf (jobs s) = []) \<and>
     (pc s = MDone \<longrightarrow> is_closed (results s) \<and> buf (results s) = [])"

fun pc_weight :: "mpc \<Rightarrow> nat" where
  "pc_weight (MSpawn k) = 2 * k + 6"
| "pc_weight MSend = 5"
| "pc_weight MGoCloser = 4"
| "pc_weight MRead = 1"
| "pc_weight MDone = 0"

fun closer_weight :: "cstate \<Rightarrow> nat" where
  "closer_weight CNone = 3"
| "closer_weight CWait = 2"
| "closer_weight CClose = 1"
| "closer_weight CDone = 0"

fun worker_weight :: "wstate \<Rightarrow> nat" where
  "worker_weight Fetching = 1"
| "worker_weight (Processing job) = 4"
| "worker_weight (Emitting v) = 3"
| "worker_weight Stopped = 0"

definition steps_left :: "pool \<Rightarrow> nat" where
  "steps_left s =
     (case crashed s of None \<Rightarrow> 1 | Some m \<Rightarrow> 0) + pc_weight (pc s) +
     5 * length (pending s) + 4 * length (buf (jobs s)) +
     sum_list (map worker_weight (workers s)) + length (buf (results s)) +
     closer_weight (closer s)"

subsection \<open>When a worker stops\<close>

text \<open>
  \<open>stops_next tf i s\<close> says that the next step of worker \<open>i\<close> takes it to \<open>Stopped\<close>.
  \<open>spec_stop_condition\<close> is the condition of the specification for that transition, in its
  words: the job queue is closed and empty, or the cancellation signal is observed between
  jobs. The signal is the argument \<open>cancelled\<close>: it is no part of the state of the program,
  since \<open>worker\<close> has no parameter for it and reads nothing but the job channel.
\<close>

definition stops_next :: "transform \<Rightarrow> nat \<Rightarrow> pool \<Rightarrow> bool" where
  "stops_next tf i s =
     (case exec tf (Worker i) s of None \<Rightarrow> False | Some s' \<Rightarrow> workers s' ! i = Stopped)"

definition spec_stop_condition :: "bool \<Rightarrow> pool \<Rightarrow> bool" where
  "spec_stop_condition cancelled s \<longleftrightarrow>
     (is_closed (jobs s) \<and> buf (jobs s) = []) \<or> cancelled"

subsection \<open>The source program and some of its runs\<close>

text \<open>
  The program of the source: three workers, both channels of capacity 5, the jobs 1 to 5.
\<close>

definition source_pool :: pool where
  "source_pool = init 3 5 5 [1, 2, 3, 4, 5]"

text \<open>
  The state in which \<open>main\<close> has read the result channel to its end, with \<open>rs\<close> collected.
\<close>

definition finished :: "go_int list \<Rightarrow> pool" where
  "finished rs =
     \<lparr>jobs = \<lparr>buf = [], cap = 5, is_closed = True\<rparr>,
      results = \<lparr>buf = [], cap = 5, is_closed = True\<rparr>,
      workers = [Stopped, Stopped, Stopped], wg = 0, closer = CDone, pc = MDone,
      pending = [], workerResults = rs, crashed = None\<rparr>"

text \<open>
  Schedules of the source program. In all of them \<open>main\<close> first spawns the three workers,
  sends the five jobs, closes the job channel and starts the closing goroutine
  (\<open>shutdown_sent\<close>). Then worker 0 handles every job in turn (\<open>in_order\<close>), or worker 1
  overtakes worker 0 on the second job (\<open>overtaking\<close>); \<open>joined\<close> stops after the last worker
  has returned.
\<close>

definition shutdown_sent :: "action list" where
  "shutdown_sent = [Main, Main, Main, Main, Main, Main, Main, Main, Main, Main, Main]"

definition all_by_worker_0 :: "action list" where
  "all_by_worker_0 =
     [Worker 0, Worker 0, Worker 0, Worker 0, Worker 0, Worker 0, Worker 0, Worker 0,
      Worker 0, Worker 0, Worker 0, Worker 0, Worker 0, Worker 0, Worker 0]"

definition join_and_drain :: "action list" where
  "join_and_drain =
     [Worker 0, Worker 1, Worker 2, Closer, Closer, Main, Main, Main, Main, Main, Main]"

definition in_order :: "action list" where
  "in_order = shutdown_sent @ all_by_worker_0 @ join_and_drain"

definition overtaking :: "action list" where
  "overtaking =
     shutdown_sent @
     [Worker 0, Worker 1, Worker 1, Worker 1, Worker 0, Worker 0,
      Worker 0, Worker 0, Worker 0, Worker 0, Worker 0, Worker 0, Worker 0, Worker 0,
      Worker 0] @
     join_and_drain"

definition joined :: "action list" where
  "joined = shutdown_sent @ all_by_worker_0 @ [Worker 0, Worker 1, Worker 2]"

definition joined_pool :: pool where
  "joined_pool =
     \<lparr>jobs = \<lparr>buf = [], cap = 5, is_closed = True\<rparr>,
      results = \<lparr>buf = [2, 4, 6, 8, 10], cap = 5, is_closed = False\<rparr>,
      workers = [Stopped, Stopped, Stopped], wg = 0, closer = CWait, pc = MRead,
      pending = [], workerResults = [], crashed = None\<rparr>"

text \<open>
  One worker and twelve jobs: \<open>main\<close> sends, the worker handles six jobs, and then the result
  channel holds five results, the worker holds the sixth, the job channel holds five jobs
  and \<open>main\<close> still has job 12 to send.
\<close>

definition twelve_jobs :: "go_int list" where
  "twelve_jobs = [1, 2, 3, 4, 5, 6, 7, 8, 9, 10, 11, 12]"

definition filling_up :: "action list" where
  "filling_up =
     [Main, Main, Main, Main, Main, Main, Main,
      Worker 0, Main, Worker 0, Worker 0,
      Worker 0, Main, Worker 0, Worker 0,
      Worker 0, Main, Worker 0, Worker 0,
      Worker 0, Main, Worker 0, Worker 0,
      Worker 0, Main, Worker 0, Worker 0,
      Worker 0, Main, Worker 0]"

definition stuck_pool :: pool where
  "stuck_pool =
     \<lparr>jobs = \<lparr>buf = [7, 8, 9, 10, 11], cap = 5, is_closed = False\<rparr>,
      results = \<lparr>buf = [2, 4, 6, 8, 10], cap = 5, is_closed = False\<rparr>,
      workers = [Emitting 12], wg = 1, closer = CNone, pc = MSend,
      pending = [12], workerResults = [], crashed = None\<rparr>"

text \<open>
  The source program after the last job has been handled: the job channel is closed and
  empty and the three workers are back at the head of their loops.
\<close>

definition draining :: "action list" where
  "draining = shutdown_sent @ all_by_worker_0"

definition drained_pool :: pool where
  "drained_pool =
     \<lparr>jobs = \<lparr>buf = [], cap = 5, is_closed = True\<rparr>,
      results = \<lparr>buf = [2, 4, 6, 8, 10], cap = 5, is_closed = False\<rparr>,
      workers = [Fetching, Fetching, Fetching], wg = 3, closer = CWait, pc = MRead,
      pending = [], workerResults = [], crashed = None\<rparr>"

text \<open>The source program after \<open>main\<close> has sent the five jobs.\<close>

definition sending_done :: "action list" where
  "sending_done = [Main, Main, Main, Main, Main, Main, Main, Main, Main]"

definition loaded_pool :: pool where
  "loaded_pool =
     \<lparr>jobs = \<lparr>buf = [1, 2, 3, 4, 5], cap = 5, is_closed = False\<rparr>,
      results = \<lparr>buf = [], cap = 5, is_closed = False\<rparr>,
      workers = [Fetching, Fetching, Fetching], wg = 3, closer = CNone, pc = MSend,
      pending = [], workerResults = [], crashed = None\<rparr>"

section \<open>Properties of the Fibonacci functions\<close>

lemma fib_nat_nonneg: "0 \<le> fib_nat k"
  by (induction k rule: fib_nat.induct) auto

lemma fib_nat_Suc_le: "fib_nat k \<le> fib_nat (Suc k)"
  using fib_nat_nonneg by (cases k) auto

lemma fib_nat_mono: "j \<le> k \<Longrightarrow> fib_nat j \<le> fib_nat k"
  by (rule lift_Suc_mono_le [of fib_nat]) (auto simp: fib_nat_Suc_le)

lemma fib_nat_rec: "2 \<le> k \<Longrightarrow> fib_nat k = fib_nat (k - 1) + fib_nat (k - 2)"
proof -
  assume "2 \<le> k"
  then obtain j where "k = Suc (Suc j)"
    by (metis Suc_le_D numeral_2_eq_2 Suc_le_mono)
  then show ?thesis by simp
qed

lemma map_upt_snoc: "map f [0..<k] @ [f k] = map f [0..<Suc k]"
  by simp

lemma rb_while_fibs:
  "2 \<le> k \<Longrightarrow> rb_while n (map fib_nat [0..<k]) = map fib_nat [0..<max k (nat n)]"
proof (induction "nat n - k" arbitrary: k)
  case 0
  then have "\<not> int k < n" by linarith
  moreover from 0 have "max k (nat n) = k" by linarith
  ultimately show ?case by (subst rb_while.simps) simp
next
  case (Suc d)
  then have lt: "int k < n" by linarith
  have nxt: "map fib_nat [0..<k] ! (k - 1) + map fib_nat [0..<k] ! (k - 2) = fib_nat k"
    using Suc.prems by (simp add: fib_nat_rec)
  have "rb_while n (map fib_nat [0..<k]) = rb_while n (map fib_nat [0..<Suc k])"
    using lt nxt by (subst rb_while.simps) (simp del: upt_Suc add: map_upt_snoc)
  also have "\<dots> = map fib_nat [0..<max (Suc k) (nat n)]"
    using Suc by (intro Suc.hyps(1)) linarith+
  also have "max (Suc k) (nat n) = max k (nat n)" using lt by linarith
  finally show ?case .
qed

lemma fibonacci_rb_exact: "fibonacci_rb n = first_fibs n"
proof -
  have two: "[0, 1] = map fib_nat [0..<2]" by (simp add: numeral_2_eq_2)
  show ?thesis
  proof (cases "2 \<le> n")
    case True
    then have "max 2 (nat n) = nat n" by linarith
    with True show ?thesis
      unfolding fibonacci_rb_def first_fibs_def two
      by (simp add: rb_while_fibs del: upt_Suc)
  next
    case False
    then have "n \<le> 0 \<or> n = 1" by linarith
    then show ?thesis by (auto simp: fibonacci_rb_def first_fibs_def)
  qed
qed

lemma fib_nat_78: "fib_nat 78 = 8944394323791464"
proof -
  have "fibonacci_rb 79 ! 78 = 8944394323791464" by code_simp
  then show ?thesis by (simp add: fibonacci_rb_exact first_fibs_def del: upt_Suc)
qed

lemma fib_nat_small: "k \<le> 78 \<Longrightarrow> \<bar>fib_nat k\<bar> < 2 ^ 53"
  using fib_nat_mono [of k 78] fib_nat_nonneg [of k] by (simp add: fib_nat_78)

lemma fib_while_fibs:
  "2 \<le> k \<Longrightarrow> n \<le> 79 \<Longrightarrow>
   fib_while n (map (\<lambda>i. Num (fib_nat i)) [0..<k]) = map (\<lambda>i. Num (fib_nat i)) [0..<max k (nat n)]"
proof (induction "nat n - k" arbitrary: k)
  case 0
  then have "\<not> int k < n" by linarith
  moreover from 0 have "max k (nat n) = k" by linarith
  ultimately show ?case by (subst fib_while.simps) simp
next
  case (Suc d)
  let ?f = "\<lambda>i. Num (fib_nat i)"
  from Suc have lt: "int k < n" by linarith
  with Suc.prems have k78: "k \<le> 78" by linarith
  have nxt: "js_add (map ?f [0..<k] ! (k - 1)) (map ?f [0..<k] ! (k - 2)) = ?f k"
    using Suc.prems(1) fib_nat_small [OF k78]
    by (simp add: fib_nat_rec [of k] to_double_def)
  have "fib_while n (map ?f [0..<k]) = fib_while n (map ?f [0..<Suc k])"
    using lt nxt by (subst fib_while.simps) simp
  also have "\<dots> = map ?f [0..<max (Suc k) (nat n)]"
    using Suc by (intro Suc.hyps(1)) linarith+
  also have "max (Suc k) (nat n) = max k (nat n)" using lt by linarith
  finally show ?case .
qed

lemma fibonacci_ts_exact: "n \<le> 79 \<Longrightarrow> fibonacci_ts n = map Num (first_fibs n)"
proof -
  assume n: "n \<le> 79"
  have two: "[Num 0, Num 1] = map (\<lambda>i. Num (fib_nat i)) [0..<2]" by (simp add: numeral_2_eq_2)
  show ?thesis
  proof (cases "2 \<le> n")
    case True
    then have "max 2 (nat n) = nat n" by linarith
    with True n show ?thesis
      unfolding fibonacci_ts_def first_fibs_def two
      by (simp add: fib_while_fibs comp_def del: upt_Suc)
  next
    case False
    then have "n \<le> 0 \<or> n = 1" by linarith
    then show ?thesis by (auto simp: fibonacci_ts_def first_fibs_def)
  qed
qed

lemma fibonacci_js_ts: "fibonacci_js n = fibonacci_ts n"
  by (simp add: fibonacci_js_def fibonacci_ts_def)

lemma go_for_fibs:
  "2 \<le> i \<Longrightarrow> i \<le> nat n \<Longrightarrow> length s = nat n \<Longrightarrow>
   (\<forall>j < i. s ! j = word_of_int (fib_nat j)) \<Longrightarrow>
   go_for i n s = map (\<lambda>j. word_of_int (fib_nat j)) [0..<nat n]"
proof (induction "nat n - i" arbitrary: i s)
  case 0
  then have eq: "i = nat n" and nlt: "\<not> int i < n" by linarith+
  have "s = map (\<lambda>j. word_of_int (fib_nat j)) [0..<nat n]"
    using 0 eq by (intro nth_equalityI) auto
  with nlt show ?case by (subst go_for.simps) simp
next
  case (Suc d)
  then have lt: "int i < n" by linarith
  let ?s = "s[i := s ! (i - 1) + s ! (i - 2)]"
  have new: "s ! (i - 1) + s ! (i - 2) = word_of_int (fib_nat i)"
    using Suc.prems by (simp add: fib_nat_rec [of i])
  have all: "\<forall>j < i + 1. ?s ! j = word_of_int (fib_nat j)"
  proof (intro allI impI)
    fix j assume "j < i + 1"
    then consider "j = i" | "j < i" by linarith
    then show "?s ! j = word_of_int (fib_nat j)"
    proof cases
      case 1
      with Suc.prems lt new show ?thesis by simp
    next
      case 2
      with Suc.prems show ?thesis by simp
    qed
  qed
  have "go_for i n s = go_for (i + 1) n ?s"
    using lt by (subst go_for.simps) simp
  also have "\<dots> = map (\<lambda>j. word_of_int (fib_nat j)) [0..<nat n]"
    using Suc.prems Suc.hyps(2) lt all by (intro Suc.hyps(1)) auto
  finally show ?case .
qed

lemma Fibonacci_go_closed:
  "Fibonacci_go n = map (\<lambda>j. word_of_int (fib_nat j)) [0..<nat (sint n)]"
proof (cases "2 \<le> sint n")
  case True
  let ?s = "(replicate (nat (sint n)) (0::go_int))[0 := 0, 1 := 1]"
  have "\<forall>j < 2. ?s ! j = word_of_int (fib_nat j)"
  proof (intro allI impI)
    fix j :: nat assume "j < 2"
    then consider "j = 0" | "j = 1" by linarith
    then show "?s ! j = word_of_int (fib_nat j)"
      using True by cases auto
  qed
  with True
  have "go_for 2 (sint n) ?s = map (\<lambda>j. word_of_int (fib_nat j)) [0..<nat (sint n)]"
    by (intro go_for_fibs) auto
  with True show ?thesis by (simp add: Fibonacci_go_def)
next
  case False
  then have "sint n \<le> 0 \<or> sint n = 1" by linarith
  then show ?thesis by (auto simp: Fibonacci_go_def)
qed

lemma fib_nat_92: "fib_nat 92 = 7540113804746346429"
proof -
  have "fibonacci_rb 93 ! 92 = 7540113804746346429" by code_simp
  then show ?thesis by (simp add: fibonacci_rb_exact first_fibs_def del: upt_Suc)
qed

lemma sint_fib_small: "k \<le> 92 \<Longrightarrow> sint (word_of_int (fib_nat k) :: go_int) = fib_nat k"
proof -
  assume "k \<le> 92"
  then have "fib_nat k \<le> 7540113804746346429"
    using fib_nat_mono [of k 92] by (simp add: fib_nat_92)
  moreover have "0 \<le> fib_nat k" by (rule fib_nat_nonneg)
  ultimately have "- (2 ^ 63) \<le> fib_nat k" "fib_nat k < 2 ^ 63" by simp_all
  then show ?thesis by (simp add: int_word_sint)
qed

lemma Fibonacci_go_exact:
  "sint m \<le> 93 \<Longrightarrow> map sint (Fibonacci_go m) = first_fibs (sint m)"
  by (simp add: Fibonacci_go_closed first_fibs_def sint_fib_small del: upt_Suc)

lemma first_fibs_sequence: "fib_sequence n (first_fibs n)"
proof -
  consider "n \<le> 0" | "n = 1" | "2 \<le> n" by linarith
  then show ?thesis
  proof cases
    case 3
    then have "0 < nat n" "1 < nat n" by linarith+
    with 3 show ?thesis
      by (auto simp: fib_sequence_def first_fibs_def fib_nat_rec simp del: upt_Suc)
  qed (auto simp: fib_sequence_def first_fibs_def)
qed

text \<open>
  Claim C8, as amended. The Ruby function returns, for every integer \<open>n\<close>, the sequence of the
  documentation: empty for \<open>n \<le> 0\<close>, \<open>[0]\<close> for \<open>n = 1\<close>, otherwise the first \<open>n\<close> Fibonacci
  numbers. The TypeScript and JavaScript functions return the same sequence for every
  \<open>n \<le> 79\<close> (all elements are below \<open>2 ^ 53\<close>, where doubles are exact), and the Go function
  for every \<open>int\<close> of value \<open>n \<le> 93\<close> (all elements fit a signed 64-bit integer).
\<close>

theorem fibonacci_equivalent_in_range:
  "(n \<le> 79 \<longrightarrow> fibonacci_ts n = map Num (first_fibs n) \<and>
                fibonacci_js n = map Num (first_fibs n)) \<and>
   (sint m = n \<and> n \<le> 93 \<longrightarrow> map sint (Fibonacci_go m) = first_fibs n) \<and>
   fibonacci_rb n = first_fibs n \<and>
   fib_sequence n (first_fibs n)"
  using Fibonacci_go_exact [of m]
  by (auto simp: fibonacci_ts_exact fibonacci_js_ts fibonacci_rb_exact first_fibs_sequence)

text \<open>The theorem of C8 at \<open>n = 5\<close>: all four functions return 0, 1, 1, 2, 3.\<close>

theorem fibonacci_equivalent_in_range_witness:
  "(5::int) \<le> 79 \<and> sint (5::go_int) = 5 \<and> (5::int) \<le> 93 \<and>
     fibonacci_ts 5 = map Num [0, 1, 1, 2, 3] \<and>
     fibonacci_js 5 = map Num [0, 1, 1, 2, 3] \<and>
     fibonacci_rb 5 = [0, 1, 1, 2, 3] \<and>
     map sint (Fibonacci_go 5) = [0, 1, 1, 2, 3] \<and>
     fib_sequence 5 [0, 1, 1, 2, 3]"
proof -
  have ff: "first_fibs 5 = [0, 1, 1, 2, 3]" by code_simp
  show ?thesis using fibonacci_equivalent_in_range [of 5 5] by (simp add: ff)
qed

text \<open>
  Claim C8 as stated fails: the four functions do not agree on every integer. At \<open>n = 80\<close> the
  last element, 14472334024676221, is not a double, and TypeScript stores 14472334024676220
  where Ruby has the exact number; at \<open>n = 94\<close> the last element exceeds \<open>2 ^ 63 - 1\<close> and
  Go's addition wraps around to a negative number.
\<close>

theorem fibonacci_implementations_differ:
  "fibonacci_ts 80 \<noteq> map Num (fibonacci_rb 80) \<and>
   map sint (Fibonacci_go 94) \<noteq> fibonacci_rb 94"
  by code_simp

section \<open>Properties of the factorial functions\<close>

lemma foldl_times_upto: "1 \<le> n \<Longrightarrow> foldl (*) 1 [1..n] = \<Prod>{1..n}"
proof (induction n rule: int_ge_induct)
  case base
  show ?case by simp
next
  case (step i)
  have "[1..i + 1] = [1..i] @ [i + 1]"
    using step.hyps by (simp add: upto_rec2)
  moreover have "{1..i + 1} = insert (i + 1) {1..i}"
    using step.hyps by auto
  ultimately show ?case using step by (simp add: mult.commute)
qed

lemma factorial_rb_exact: "factorial_rb n = Some (if n \<le> 1 then 1 else \<Prod>{1..n})"
proof (cases "n \<le> 1")
  case True
  then show ?thesis by (simp add: factorial_rb_def)
next
  case False
  then have n: "1 \<le> n" by simp
  have "[1..n] = 1 # [2..n]" using n by (simp add: upto_rec1)
  then have "reduce (*) [1..n] = Some (foldl (*) 1 [1..n])" by simp
  with False n show ?thesis by (simp add: factorial_rb_def foldl_times_upto)
qed

lemma factorial_js_low: "n \<le> 1 \<Longrightarrow> factorial_js n = Num 1"
  by (subst factorial_js.simps) simp

lemma factorial_js_2_22:
  "list_all (\<lambda>n. Some (factorial_js n) = map_option Num (factorial_rb n)) [2..22]"
  by code_simp

lemma factorial_js_exact:
  assumes "n \<le> 22"
  shows "factorial_js n = Num (if n \<le> 1 then 1 else \<Prod>{1..n})"
proof (cases "n \<le> 1")
  case True
  then show ?thesis by (simp add: factorial_js_low)
next
  case False
  with assms have "n \<in> {2..22}" by simp
  then have "n \<in> set [2..22]" by (simp only: set_upto)
  with factorial_js_2_22 have "Some (factorial_js n) = map_option Num (factorial_rb n)"
    unfolding list_all_iff by blast
  then show ?thesis by (simp add: factorial_rb_exact)
qed

text \<open>
  Claim C10, as amended. Both functions return 1 for every integer \<open>n \<le> 1\<close>, zero and the
  negative integers included. Ruby returns the product \<open>1 * 2 * \<dots> * n\<close> for every \<open>n \<ge> 2\<close>;
  JavaScript returns the same number for \<open>2 \<le> n \<le> 22\<close>, where every product it forms is
  exactly a double. So the two agree on every integer up to 22.
\<close>

theorem factorial_agree_upto_22:
  "(n \<le> 22 \<longrightarrow> factorial_js n = Num (if n \<le> 1 then 1 else \<Prod>{1..n})) \<and>
   factorial_rb n = Some (if n \<le> 1 then 1 else \<Prod>{1..n})"
  by (simp add: factorial_js_exact factorial_rb_exact)

text \<open>The theorem of C10 at \<open>n = 5\<close> and at \<open>n = - 3\<close>.\<close>

theorem factorial_agree_upto_22_witness:
  "(5::int) \<le> 22 \<and> factorial_js 5 = Num 120 \<and> factorial_rb 5 = Some 120 \<and>
   factorial_js (- 3) = Num 1 \<and> factorial_rb (- 3) = Some 1"
proof -
  have p: "\<Prod>{1..5::int} = 120"
    using factorial_rb_exact [of 5] by (simp add: factorial_rb_def upto_rec1)
  show ?thesis
    using factorial_agree_upto_22 [of 5] factorial_agree_upto_22 [of "- 3"] by (simp add: p)
qed

text \<open>
  Claim C10 as stated fails at \<open>n = 23\<close>: the product 25852016738884976640000 needs 55
  significant bits, and JavaScript returns the nearest double instead.
\<close>

theorem factorial_js_rb_differ_at_23:
  "factorial_js 23 = Num 25852016738884978212864 \<and>
   factorial_rb 23 = Some 25852016738884976640000"
  by code_simp

section \<open>Properties of the division helpers\<close>

text \<open>
  Claim C9. Each of the three helpers returns its error branch exactly when the divisor
  compares equal to zero. In that case no quotient is returned: the TypeScript result is the
  \<open>Failure\<close> alternative, which has no data field, and the Go results carry the literal zero
  beside the error. For every other divisor the result is the success branch with the
  quotient.
\<close>

theorem divide_error_iff_zero_divisor:
  "((\<exists>e. divide_ts ops a b = Failure e) \<longleftrightarrow> feq ops b (fzero ops)) \<and>
   (snd (divide_go ops a b) \<noteq> None \<longleftrightarrow> feq ops b (fzero ops)) \<and>
   (snd (SafeDivide ops a b) \<noteq> None \<longleftrightarrow> feq ops b (fzero ops)) \<and>
   (feq ops b (fzero ops) \<longrightarrow>
      divide_ts ops a b = Failure ''Division by zero'' \<and>
      divide_go ops a b = (fzero ops, Some ''division by zero'') \<and>
      SafeDivide ops a b = (fzero ops, Some ErrDivisionByZero)) \<and>
   (\<not> feq ops b (fzero ops) \<longrightarrow>
      divide_ts ops a b = Success (fdiv ops a b) \<and>
      divide_go ops a b = (fdiv ops a b, None) \<and>
      SafeDivide ops a b = (fdiv ops a b, None))"
  by (simp add: divide_ts_def divide_go_def SafeDivide_def)

text \<open>The theorem of C9 on rational numbers, at \<open>10 / 0\<close> and at \<open>10 / 2\<close>.\<close>

theorem divide_error_iff_zero_divisor_witness:
  "feq rat_ops 0 (fzero rat_ops) \<and>
   divide_ts rat_ops 10 0 = Failure ''Division by zero'' \<and>
   divide_go rat_ops 10 0 = (0, Some ''division by zero'') \<and>
   SafeDivide rat_ops 10 0 = (0, Some ErrDivisionByZero) \<and>
   \<not> feq rat_ops 2 (fzero rat_ops) \<and>
   divide_ts rat_ops 10 2 = Success 5 \<and>
   divide_go rat_ops 10 2 = (5, None) \<and>
   SafeDivide rat_ops 10 2 = (5, None)"
  using divide_error_iff_zero_divisor [of rat_ops 10 0]
    divide_error_iff_zero_divisor [of rat_ops 10 2]
  by (simp add: rat_ops_def)

section \<open>Properties of the worker pool\<close>

subsection \<open>The steps, case by case\<close>

lemma main_step_cases:
  assumes ms: "main_step s = Some s'"
  obtains
    (spawn) k where "pc s = MSpawn (Suc k)"
      "s' = s\<lparr>wg := wg s + 1, workers := workers s @ [Fetching], pc := MSpawn k\<rparr>"
  | (spawned) "pc s = MSpawn 0" "s' = s\<lparr>pc := MSend\<rparr>"
  | (send) j js where "pc s = MSend" "pending s = j # js"
      "\<not> is_closed (jobs s)" "length (buf (jobs s)) < cap (jobs s)"
      "s' = s\<lparr>jobs := (jobs s)\<lparr>buf := buf (jobs s) @ [j]\<rparr>, pending := js\<rparr>"
  | (close) "pc s = MSend" "pending s = []" "\<not> is_closed (jobs s)"
      "s' = s\<lparr>jobs := (jobs s)\<lparr>is_closed := True\<rparr>, pc := MGoCloser\<rparr>"
  | (gocloser) "pc s = MGoCloser" "s' = s\<lparr>closer := CWait, pc := MRead\<rparr>"
  | (collect) r rest where "pc s = MRead" "buf (results s) = r # rest"
      "s' = s\<lparr>results := (results s)\<lparr>buf := rest\<rparr>, workerResults := workerResults s @ [r]\<rparr>"
  | (finish) "pc s = MRead" "buf (results s) = []" "is_closed (results s)" "s' = s\<lparr>pc := MDone\<rparr>"
  | (panic_send) m where "pc s = MSend" "is_closed (jobs s)" "s' = crash m s"
proof (cases "pc s")
  case (MSpawn k)
  show thesis
  proof (cases k)
    case 0
    with ms MSpawn have "s' = s\<lparr>pc := MSend\<rparr>" by (simp add: main_step_def)
    with MSpawn 0 show thesis by (intro spawned) simp_all
  next
    case (Suc k')
    with ms MSpawn
    have "s' = s\<lparr>wg := wg s + 1, workers := workers s @ [Fetching], pc := MSpawn k'\<rparr>"
      by (simp add: main_step_def)
    with MSpawn Suc show thesis by (intro spawn [of k']) simp_all
  qed
next
  case MSend
  show thesis
  proof (cases "is_closed (jobs s)")
    case True
    with ms MSend have "\<exists>m. s' = crash m s"
      by (cases "pending s")
        (auto simp: main_step_def submit_def chan_send_def chan_close_def)
    then obtain m where "s' = crash m s" ..
    with MSend True show thesis by (intro panic_send [of m]) simp_all
  next
    case False
    show thesis
    proof (cases "pending s")
      case Nil
      with ms MSend False
      have "s' = s\<lparr>jobs := (jobs s)\<lparr>is_closed := True\<rparr>, pc := MGoCloser\<rparr>"
        by (simp add: main_step_def chan_close_def)
      with MSend False Nil show thesis by (intro close) simp_all
    next
      case (Cons j js)
      show thesis
      proof (cases "length (buf (jobs s)) < cap (jobs s)")
        case True
        with ms MSend False Cons
        have "s' = s\<lparr>jobs := (jobs s)\<lparr>buf := buf (jobs s) @ [j]\<rparr>, pending := js\<rparr>"
          by (simp add: main_step_def submit_def chan_send_def)
        with MSend False Cons True show thesis by (intro send [of j js]) simp_all
      next
        case full: False
        with ms MSend False Cons show thesis
          by (simp add: main_step_def submit_def chan_send_def)
      qed
    qed
  qed
next
  case MGoCloser
  with ms have "s' = s\<lparr>closer := CWait, pc := MRead\<rparr>" by (simp add: main_step_def)
  with MGoCloser show thesis by (intro gocloser) simp_all
next
  case MRead
  show thesis
  proof (cases "buf (results s)")
    case Nil
    show thesis
    proof (cases "is_closed (results s)")
      case True
      with ms MRead Nil have "s' = s\<lparr>pc := MDone\<rparr>"
        by (simp add: main_step_def chan_recv_def)
      with MRead Nil True show thesis by (intro finish) simp_all
    next
      case False
      with ms MRead Nil show thesis by (simp add: main_step_def chan_recv_def)
    qed
  next
    case (Cons r rest)
    with ms MRead
    have "s' = s\<lparr>results := (results s)\<lparr>buf := rest\<rparr>, workerResults := workerResults s @ [r]\<rparr>"
      by (simp add: main_step_def chan_recv_def)
    with MRead Cons show thesis by (intro collect [of r rest]) simp_all
  qed
next
  case MDone
  with ms show thesis by (simp add: main_step_def)
qed

lemma worker_cases:
  assumes ws: "worker tf i s = Some s'"
  obtains
    (fetch) j rest where "i < length (workers s)" "workers s ! i = Fetching"
      "buf (jobs s) = j # rest"
      "s' = s\<lparr>jobs := (jobs s)\<lparr>buf := rest\<rparr>, workers := (workers s)[i := Processing j]\<rparr>"
  | (stop) "i < length (workers s)" "workers s ! i = Fetching" "buf (jobs s) = []"
      "is_closed (jobs s)" "wg s \<noteq> 0"
      "s' = s\<lparr>workers := (workers s)[i := Stopped], wg := wg s - 1\<rparr>"
  | (process) j v where "i < length (workers s)" "workers s ! i = Processing j" "tf j = Inr v"
      "s' = s\<lparr>workers := (workers s)[i := Emitting v]\<rparr>"
  | (emit) v where "i < length (workers s)" "workers s ! i = Emitting v"
      "\<not> is_closed (results s)" "length (buf (results s)) < cap (results s)"
      "s' = s\<lparr>results := (results s)\<lparr>buf := buf (results s) @ [v]\<rparr>,
               workers := (workers s)[i := Fetching]\<rparr>"
  | (panic_wg) m where "i < length (workers s)" "workers s ! i = Fetching" "wg s = 0"
      "s' = crash m s"
  | (panic_transform) j m where "i < length (workers s)" "workers s ! i = Processing j"
      "tf j = Inl m" "s' = crash m s"
  | (panic_emit) v m where "i < length (workers s)" "workers s ! i = Emitting v"
      "is_closed (results s)" "s' = crash m s"
proof -
  from ws have i: "i < length (workers s)"
    by (cases "length (workers s) \<le> i") (simp_all add: worker_def)
  show thesis
  proof (cases "workers s ! i")
    case Fetching
    show thesis
    proof (cases "buf (jobs s)")
      case Nil
      show thesis
      proof (cases "is_closed (jobs s)")
        case True
        show thesis
        proof (cases "wg s = 0")
          case True
          with ws i Fetching Nil \<open>is_closed (jobs s)\<close>
          have "s' = crash ''sync: negative WaitGroup counter'' s"
            by (simp add: worker_def chan_recv_def)
          with i Fetching True show thesis by (intro panic_wg) simp_all
        next
          case False
          with ws i Fetching Nil \<open>is_closed (jobs s)\<close>
          have "s' = s\<lparr>workers := (workers s)[i := Stopped], wg := wg s - 1\<rparr>"
            by (simp add: worker_def chan_recv_def)
          with i Fetching Nil False \<open>is_closed (jobs s)\<close> show thesis
            by (intro stop) simp_all
        qed
      next
        case False
        with ws i Fetching Nil show thesis by (simp add: worker_def chan_recv_def)
      qed
    next
      case (Cons j rest)
      with ws i Fetching
      have "s' = s\<lparr>jobs := (jobs s)\<lparr>buf := rest\<rparr>, workers := (workers s)[i := Processing j]\<rparr>"
        by (simp add: worker_def chan_recv_def)
      with i Fetching Cons show thesis by (intro fetch [of j rest]) simp_all
    qed
  next
    case (Processing j)
    show thesis
    proof (cases "tf j")
      case (Inl m)
      with ws i Processing have "s' = crash m s" by (simp add: worker_def)
      with i Processing Inl show thesis by (intro panic_transform [of j m]) simp_all
    next
      case (Inr v)
      with ws i Processing have "s' = s\<lparr>workers := (workers s)[i := Emitting v]\<rparr>"
        by (simp add: worker_def)
      with i Processing Inr show thesis by (intro process [of j v]) simp_all
    qed
  next
    case (Emitting v)
    show thesis
    proof (cases "is_closed (results s)")
      case True
      with ws i Emitting have "s' = crash ''send on closed channel'' s"
        by (simp add: worker_def chan_send_def)
      with i Emitting True show thesis by (intro panic_emit [of v]) simp_all
    next
      case False
      show thesis
      proof (cases "length (buf (results s)) < cap (results s)")
        case True
        with ws i Emitting False
        have "s' = s\<lparr>results := (results s)\<lparr>buf := buf (results s) @ [v]\<rparr>,
                      workers := (workers s)[i := Fetching]\<rparr>"
          by (simp add: worker_def chan_send_def)
        with i Emitting False True show thesis by (intro emit [of v]) simp_all
      next
        case full: False
        with ws i Emitting False show thesis by (simp add: worker_def chan_send_def)
      qed
    qed
  next
    case Stopped
    with ws i show thesis by (simp add: worker_def)
  qed
qed

lemma closer_step_cases:
  assumes cs: "closer_step s = Some s'"
  obtains
    (wait) "closer s = CWait" "wg s = 0" "s' = s\<lparr>closer := CClose\<rparr>"
  | (closeres) "closer s = CClose" "\<not> is_closed (results s)"
      "s' = s\<lparr>results := (results s)\<lparr>is_closed := True\<rparr>, closer := CDone\<rparr>"
  | (panic_close) m where "closer s = CClose" "is_closed (results s)" "s' = crash m s"
proof (cases "closer s")
  case CNone
  with cs show thesis by (simp add: closer_step_def)
next
  case CWait
  show thesis
  proof (cases "wg s = 0")
    case True
    with cs CWait have "s' = s\<lparr>closer := CClose\<rparr>" by (simp add: closer_step_def)
    with CWait True show thesis by (intro wait) simp_all
  next
    case False
    with cs CWait show thesis by (simp add: closer_step_def)
  qed
next
  case CClose
  show thesis
  proof (cases "is_closed (results s)")
    case True
    with cs CClose have "s' = crash ''close of closed channel'' s"
      by (simp add: closer_step_def chan_close_def)
    with CClose True show thesis by (intro panic_close) simp_all
  next
    case False
    with cs CClose
    have "s' = s\<lparr>results := (results s)\<lparr>is_closed := True\<rparr>, closer := CDone\<rparr>"
      by (simp add: closer_step_def chan_close_def)
    with CClose False show thesis by (intro closeres) simp_all
  qed
next
  case CDone
  with cs show thesis by (simp add: closer_step_def)
qed

lemma hand_job_cases:
  assumes hj: "hand_job i s = Some s'"
  obtains j js where "pc s = MSend" "pending s = j # js" "cap (jobs s) = 0"
    "\<not> is_closed (jobs s)" "i < length (workers s)" "workers s ! i = Fetching"
    "s' = s\<lparr>pending := js, workers := (workers s)[i := Processing j]\<rparr>"
proof (cases "pending s")
  case Nil
  with hj show thesis by (simp add: hand_job_def)
next
  case (Cons j js)
  with hj have "pc s = MSend \<and> cap (jobs s) = 0 \<and> \<not> is_closed (jobs s) \<and>
      i < length (workers s) \<and> workers s ! i = Fetching \<and>
      s' = s\<lparr>pending := js, workers := (workers s)[i := Processing j]\<rparr>"
    by (simp add: hand_job_def split: if_splits)
  with Cons show thesis by (intro that [of j js]) simp_all
qed

lemma hand_result_cases:
  assumes hr: "hand_result i s = Some s'"
  obtains v where "pc s = MRead" "cap (results s) = 0" "\<not> is_closed (results s)"
    "i < length (workers s)" "workers s ! i = Emitting v"
    "s' = s\<lparr>workerResults := workerResults s @ [v], workers := (workers s)[i := Fetching]\<rparr>"
proof -
  from hr have i: "i < length (workers s)"
    by (cases "length (workers s) \<le> i") (simp_all add: hand_result_def)
  show thesis
  proof (cases "workers s ! i")
    case (Emitting v)
    with hr i have "pc s = MRead \<and> cap (results s) = 0 \<and> \<not> is_closed (results s) \<and>
        s' = s\<lparr>workerResults := workerResults s @ [v], workers := (workers s)[i := Fetching]\<rparr>"
      by (simp add: hand_result_def split: if_splits)
    with i Emitting show thesis by (intro that [of v]) simp_all
  qed (use hr i in \<open>simp_all add: hand_result_def\<close>)
qed

lemma exec_not_crashed: "exec tf a s = Some s' \<Longrightarrow> crashed s = None"
  by (cases "crashed s") (simp_all add: exec_def)

lemma exec_Main: "crashed s = None \<Longrightarrow> exec tf Main s = main_step s"
  and exec_Worker: "crashed s = None \<Longrightarrow> exec tf (Worker i) s = worker tf i s"
  and exec_Closer: "crashed s = None \<Longrightarrow> exec tf Closer s = closer_step s"
  and exec_HandJob: "crashed s = None \<Longrightarrow> exec tf (HandJob i) s = hand_job i s"
  and exec_HandResult: "crashed s = None \<Longrightarrow> exec tf (HandResult i) s = hand_result i s"
  by (simp_all add: exec_def)

subsection \<open>Counting over the workers\<close>

lemma sum_list_map_update:
  fixes g :: "'a \<Rightarrow> 'b::comm_monoid_add"
  assumes "i < length ws"
  shows "\<exists>R. sum_list (map g ws) = g (ws ! i) + R \<and>
             (\<forall>x. sum_list (map g (ws[i := x])) = g x + R)"
  using assms
proof (induction ws arbitrary: i)
  case Nil
  then show ?case by simp
next
  case (Cons w ws)
  show ?case
  proof (cases i)
    case 0
    then show ?thesis by (intro exI [of _ "sum_list (map g ws)"]) simp
  next
    case (Suc k)
    with Cons.prems have "k < length ws" by simp
    from Cons.IH [OF this] obtain R where
      R: "sum_list (map g ws) = g (ws ! k) + R"
         "\<And>x. sum_list (map g (ws[k := x])) = g x + R"
      by blast
    show ?thesis
      using Suc R by (intro exI [of _ "g w + R"]) (simp add: add.left_commute)
  qed
qed

lemma live_sum_list: "live ws = sum_list (map (\<lambda>w. if w = Stopped then 0 else 1) ws)"
  by (induction ws) (simp_all add: live_def)

lemma worker_update:
  assumes "i < length ws"
  shows "\<exists>R L.
    in_flight f ws = hold f (ws ! i) + R \<and>
    (\<forall>x. in_flight f (ws[i := x]) = hold f x + R) \<and>
    live ws = (if ws ! i = Stopped then 0 else 1) + L \<and>
    (\<forall>x. live (ws[i := x]) = (if x = Stopped then 0 else 1) + L)"
proof -
  from sum_list_map_update [OF assms, of "hold f"] obtain R where
    "in_flight f ws = hold f (ws ! i) + R" "\<And>x. in_flight f (ws[i := x]) = hold f x + R"
    unfolding in_flight_def by blast
  moreover
  from sum_list_map_update [OF assms, of "\<lambda>w. if w = Stopped then 0 else (1::nat)"]
  obtain L where
    "live ws = (if ws ! i = Stopped then 0 else 1) + L"
    "\<And>x. live (ws[i := x]) = (if x = Stopped then 0 else 1) + L"
    unfolding live_sum_list by blast
  ultimately show ?thesis by blast
qed

lemma stopped_update:
  "Stopped \<in> set (ws[i := x]) \<Longrightarrow> x \<noteq> Stopped \<Longrightarrow> Stopped \<in> set ws"
  using set_update_subset_insert [of ws i x] by auto

lemma in_flight_append [simp]: "in_flight f (ws @ [x]) = in_flight f ws + hold f x"
  by (simp add: in_flight_def)

lemma live_append [simp]: "live (ws @ [x]) = live ws + (if x = Stopped then 0 else 1)"
  by (simp add: live_def)

lemma live_pos: "i < length ws \<Longrightarrow> ws ! i \<noteq> Stopped \<Longrightarrow> 0 < live ws"
  unfolding live_def using nth_mem [of i ws] by (auto simp: filter_empty_conv)

lemma live_zero: "live ws = 0 \<longleftrightarrow> list_all (\<lambda>w. w = Stopped) ws"
  unfolding live_def by (auto simp: filter_empty_conv list_all_iff)

lemma pool_inv_init: "pool_inv w qc rc f js (init w qc rc js)"
  by (simp add: pool_inv_def init_def accounted_def in_flight_def live_def)

subsection \<open>Every step decreases the measure\<close>

lemma steps_left_decreases:
  assumes "exec tf a s = Some s'"
  shows "steps_left s' < steps_left s"
proof -
  have nc: "crashed s = None" using assms by (rule exec_not_crashed)
  show ?thesis
  proof (cases a)
    case Main
    with assms nc have "main_step s = Some s'" by (simp add: exec_def)
    then show ?thesis
      by (cases rule: main_step_cases) (simp_all add: steps_left_def nc crash_def)
  next
    case (Worker i)
    with assms nc have *: "worker tf i s = Some s'" by (simp add: exec_def)
    then have "i < length (workers s)"
      by (cases rule: worker_cases)
    then obtain K where
      K: "sum_list (map worker_weight (workers s)) = worker_weight (workers s ! i) + K"
         "\<And>x. sum_list (map worker_weight ((workers s)[i := x])) = worker_weight x + K"
      using sum_list_map_update [of i "workers s" worker_weight] by blast
    from * show ?thesis
      by (cases rule: worker_cases) (simp_all add: steps_left_def nc crash_def K)
  next
    case Closer
    with assms nc have "closer_step s = Some s'" by (simp add: exec_def)
    then show ?thesis
      by (cases rule: closer_step_cases) (simp_all add: steps_left_def nc crash_def)
  next
    case (HandJob i)
    with assms nc have *: "hand_job i s = Some s'" by (simp add: exec_def)
    then have "i < length (workers s)"
      by (cases rule: hand_job_cases)
    then obtain K where
      K: "sum_list (map worker_weight (workers s)) = worker_weight (workers s ! i) + K"
         "\<And>x. sum_list (map worker_weight ((workers s)[i := x])) = worker_weight x + K"
      using sum_list_map_update [of i "workers s" worker_weight] by blast
    from * show ?thesis
      by (cases rule: hand_job_cases) (simp add: steps_left_def nc K)
  next
    case (HandResult i)
    with assms nc have *: "hand_result i s = Some s'" by (simp add: exec_def)
    then have "i < length (workers s)"
      by (cases rule: hand_result_cases)
    then obtain K where
      K: "sum_list (map worker_weight (workers s)) = worker_weight (workers s ! i) + K"
         "\<And>x. sum_list (map worker_weight ((workers s)[i := x])) = worker_weight x + K"
      using sum_list_map_update [of i "workers s" worker_weight] by blast
    from * show ?thesis
      by (cases rule: hand_result_cases) (simp add: steps_left_def nc K)
  qed
qed

subsection \<open>The invariant\<close>

lemma returning_Inr: "returning f j = Inr v \<longleftrightarrow> v = f j"
  by (auto simp: returning_def)

lemma returning_not_Inl: "returning f j \<noteq> Inl m"
  by (simp add: returning_def)

lemma pool_inv_main:
  assumes inv: "pool_inv w qc rc f js s" and ms: "main_step s = Some s'"
  shows "pool_inv w qc rc f js s'"
  using ms
proof (cases rule: main_step_cases)
  case (spawn k)
  with inv show ?thesis by (auto simp: pool_inv_def accounted_def)
next
  case spawned
  with inv show ?thesis by (auto simp: pool_inv_def accounted_def)
next
  case (send j js)
  with inv show ?thesis by (auto simp: pool_inv_def accounted_def)
next
  case close
  with inv show ?thesis by (auto simp: pool_inv_def accounted_def)
next
  case gocloser
  with inv show ?thesis by (auto simp: pool_inv_def accounted_def)
next
  case (collect r rest)
  with inv show ?thesis by (auto simp: pool_inv_def accounted_def)
next
  case finish
  with inv show ?thesis by (auto simp: pool_inv_def accounted_def)
next
  case (panic_send m)
  with inv show ?thesis by (auto simp: pool_inv_def)
qed

lemma pool_inv_worker:
  assumes inv: "pool_inv w qc rc f js s" and ws: "worker (returning f) i s = Some s'"
  shows "pool_inv w qc rc f js s'"
proof -
  from ws have i: "i < length (workers s)" by (cases rule: worker_cases)
  from worker_update [OF i, of f] obtain R L where
    upd: "in_flight f (workers s) = hold f (workers s ! i) + R"
      "\<And>x. in_flight f ((workers s)[i := x]) = hold f x + R"
      "live (workers s) = (if workers s ! i = Stopped then 0 else 1) + L"
      "\<And>x. live ((workers s)[i := x]) = (if x = Stopped then 0 else 1) + L"
    by blast
  note su = stopped_update [of "workers s" i]
  from ws show ?thesis
  proof (cases rule: worker_cases)
    case (fetch j rest)
    with inv upd su [of "Processing j"] show ?thesis
      by (auto simp: pool_inv_def accounted_def)
  next
    case stop
    with inv upd show ?thesis
      by (auto simp: pool_inv_def accounted_def)
  next
    case (process j v)
    with inv upd su [of "Emitting v"] show ?thesis
      by (auto simp: pool_inv_def accounted_def returning_Inr)
  next
    case (emit v)
    with inv upd su [of Fetching] show ?thesis
      by (auto simp: pool_inv_def accounted_def)
  next
    case (panic_wg m)
    with inv upd show ?thesis by (auto simp: pool_inv_def)
  next
    case (panic_transform j m)
    then show ?thesis by (simp add: returning_not_Inl)
  next
    case (panic_emit v m)
    with inv upd show ?thesis by (auto simp: pool_inv_def)
  qed
qed

lemma pool_inv_closer:
  assumes inv: "pool_inv w qc rc f js s" and cs: "closer_step s = Some s'"
  shows "pool_inv w qc rc f js s'"
  using cs
proof (cases rule: closer_step_cases)
  case wait
  with inv show ?thesis by (auto simp: pool_inv_def accounted_def)
next
  case closeres
  with inv show ?thesis by (auto simp: pool_inv_def accounted_def)
next
  case (panic_close m)
  with inv show ?thesis by (auto simp: pool_inv_def)
qed

lemma pool_inv_hand_job:
  assumes inv: "pool_inv w qc rc f js s" and hj: "hand_job i s = Some s'"
  shows "pool_inv w qc rc f js s'"
  using hj
proof (cases rule: hand_job_cases)
  case (1 j js')
  from worker_update [OF 1(5), of f] obtain R L where
    upd: "in_flight f (workers s) = hold f (workers s ! i) + R"
      "\<And>x. in_flight f ((workers s)[i := x]) = hold f x + R"
      "live (workers s) = (if workers s ! i = Stopped then 0 else 1) + L"
      "\<And>x. live ((workers s)[i := x]) = (if x = Stopped then 0 else 1) + L"
    by blast
  from 1 inv upd stopped_update [of "workers s" i "Processing j"] show ?thesis
    by (auto simp: pool_inv_def accounted_def)
qed

lemma pool_inv_hand_result:
  assumes inv: "pool_inv w qc rc f js s" and hr: "hand_result i s = Some s'"
  shows "pool_inv w qc rc f js s'"
  using hr
proof (cases rule: hand_result_cases)
  case (1 v)
  from worker_update [OF 1(4), of f] obtain R L where
    upd: "in_flight f (workers s) = hold f (workers s ! i) + R"
      "\<And>x. in_flight f ((workers s)[i := x]) = hold f x + R"
      "live (workers s) = (if workers s ! i = Stopped then 0 else 1) + L"
      "\<And>x. live ((workers s)[i := x]) = (if x = Stopped then 0 else 1) + L"
    by blast
  from 1 inv upd stopped_update [of "workers s" i Fetching] show ?thesis
    by (auto simp: pool_inv_def accounted_def)
qed

lemma pool_inv_step:
  assumes "pool_inv w qc rc f js s" and "exec (returning f) a s = Some s'"
  shows "pool_inv w qc rc f js s'"
proof -
  have nc: "crashed s = None" using assms(2) by (rule exec_not_crashed)
  show ?thesis
  proof (cases a)
    case Main
    with assms nc show ?thesis by (simp add: exec_Main pool_inv_main)
  next
    case (Worker i)
    with assms nc show ?thesis by (simp add: exec_Worker pool_inv_worker)
  next
    case Closer
    with assms nc show ?thesis by (simp add: exec_Closer pool_inv_closer)
  next
    case (HandJob i)
    with assms nc show ?thesis by (simp add: exec_HandJob pool_inv_hand_job)
  next
    case (HandResult i)
    with assms nc show ?thesis by (simp add: exec_HandResult pool_inv_hand_result)
  qed
qed

lemma pool_inv_reachable:
  "reachable (returning f) (init w qc rc js) s \<Longrightarrow> pool_inv w qc rc f js s"
  by (induction rule: reachable.induct) (auto intro: pool_inv_init pool_inv_step)

subsection \<open>Progress\<close>

lemma main_enabled:
  assumes "crashed s = None"
    and "pc s = MSend \<Longrightarrow> pending s \<noteq> [] \<Longrightarrow>
           is_closed (jobs s) \<or> length (buf (jobs s)) < cap (jobs s)"
    and "pc s = MRead \<Longrightarrow> buf (results s) \<noteq> [] \<or> is_closed (results s)"
    and "pc s \<noteq> MDone"
  shows "\<exists>s'. exec tf Main s = Some s'"
proof (cases "pc s")
  case (MSpawn k)
  with assms(1) show ?thesis by (cases k) (simp_all add: exec_def main_step_def)
next
  case MSend
  show ?thesis
  proof (cases "pending s")
    case Nil
    with assms(1) MSend show ?thesis
      by (simp add: exec_def main_step_def chan_close_def)
  next
    case (Cons j js)
    with assms(1,2) MSend show ?thesis
      by (auto simp: exec_def main_step_def submit_def chan_send_def)
  qed
next
  case MGoCloser
  with assms(1) show ?thesis by (simp add: exec_def main_step_def)
next
  case MRead
  with assms(1,3) show ?thesis
    by (cases "buf (results s)") (auto simp: exec_def main_step_def chan_recv_def)
next
  case MDone
  with assms(4) show ?thesis by simp
qed

lemma worker_enabled:
  assumes "crashed s = None" "i < length (workers s)"
    and "workers s ! i = Fetching \<Longrightarrow> buf (jobs s) \<noteq> [] \<or> is_closed (jobs s)"
    and "\<And>v. workers s ! i = Emitting v \<Longrightarrow>
           is_closed (results s) \<or> length (buf (results s)) < cap (results s)"
    and "workers s ! i \<noteq> Stopped"
  shows "\<exists>s'. exec tf (Worker i) s = Some s'"
proof (cases "workers s ! i")
  case Fetching
  with assms(1,2,3) show ?thesis
    by (cases "buf (jobs s)") (auto simp: exec_def worker_def chan_recv_def)
next
  case (Processing j)
  with assms(1,2) show ?thesis
    by (cases "tf j") (simp_all add: exec_def worker_def)
next
  case (Emitting v)
  with assms(1,2,4) show ?thesis
    by (auto simp: exec_def worker_def chan_send_def)
next
  case Stopped
  with assms(5) show ?thesis by simp
qed

lemma closer_enabled:
  assumes "crashed s = None" "closer s = CClose \<or> (closer s = CWait \<and> wg s = 0)"
  shows "\<exists>s'. exec tf Closer s = Some s'"
  using assms
  by (cases "is_closed (results s)") (auto simp: exec_def closer_step_def chan_close_def)

lemma hand_job_enabled:
  assumes "crashed s = None" "pc s = MSend" "pending s \<noteq> []" "cap (jobs s) = 0"
    "\<not> is_closed (jobs s)" "i < length (workers s)" "workers s ! i = Fetching"
  shows "\<exists>s'. exec tf (HandJob i) s = Some s'"
  using assms by (cases "pending s") (simp_all add: exec_def hand_job_def)

lemma hand_result_enabled:
  assumes "crashed s = None" "pc s = MRead" "cap (results s) = 0"
    "\<not> is_closed (results s)" "i < length (workers s)" "workers s ! i = Emitting v"
  shows "\<exists>s'. exec tf (HandResult i) s = Some s'"
  using assms by (simp add: exec_def hand_result_def)

lemma in_flight_all_emitting:
  "(\<And>x. x \<in> set ws \<Longrightarrow> \<exists>v. x = Emitting v) \<Longrightarrow> size (in_flight f ws) = length ws"
proof (induction ws)
  case Nil
  show ?case by (simp add: in_flight_def)
next
  case (Cons x ws)
  from Cons.prems [of x] obtain v where "x = Emitting v" by auto
  moreover have "size (in_flight f ws) = length ws"
    using Cons.prems by (intro Cons.IH) simp
  ultimately show ?case by (simp add: in_flight_def)
qed

lemma in_flight_all_stopped:
  "list_all (\<lambda>x. x = Stopped) ws \<Longrightarrow> in_flight f ws = {#}"
  by (induction ws) (simp_all add: in_flight_def)

lemma size_accounted:
  "size (accounted f s) =
     length (pending s) + length (buf (jobs s)) + size (in_flight f (workers s)) +
     length (buf (results s)) + length (workerResults s)"
  by (simp add: accounted_def)

lemma pool_progress:
  assumes inv: "pool_inv w qc rc f js s" and nd: "pc s \<noteq> MDone"
    and bound: "(1 \<le> w \<and> length js \<le> qc + w + rc) \<or> is_closed (jobs s)"
  shows "\<exists>a s'. exec (returning f) a s = Some s'"
proof -
  let ?tf = "returning f"
  from inv have nc: "crashed s = None" by (simp add: pool_inv_def)
  show ?thesis
  proof (cases "pc s")
    case (MSpawn k)
    with nc main_enabled [of s ?tf] show ?thesis by auto
  next
    case MGoCloser
    with nc main_enabled [of s ?tf] show ?thesis by auto
  next
    case MDone
    with nd show ?thesis by simp
  next
    case MSend
    with inv have open_j: "\<not> is_closed (jobs s)" and open_r: "\<not> is_closed (results s)"
      and no_stop: "Stopped \<notin> set (workers s)" and lw: "length (workers s) = w"
      and caps: "cap (jobs s) = qc" "cap (results s) = rc"
      and lens: "length (buf (jobs s)) \<le> qc" "length (buf (results s)) \<le> rc"
      by (auto simp: pool_inv_def)
    show ?thesis
    proof (cases "pending s = [] \<or> length (buf (jobs s)) < cap (jobs s)")
      case True
      with nc MSend main_enabled [of s ?tf] show ?thesis by auto
    next
      case False
      then have pend: "pending s \<noteq> []" and jfull: "length (buf (jobs s)) = qc"
        using caps lens by auto
      show ?thesis
      proof (cases "\<exists>i < length (workers s). (\<forall>v. workers s ! i \<noteq> Emitting v)")
        case True
        then obtain i where i: "i < length (workers s)"
          and ne: "\<And>v. workers s ! i \<noteq> Emitting v" by blast
        from i have "workers s ! i \<in> set (workers s)" by (rule nth_mem)
        with no_stop have ns: "workers s ! i \<noteq> Stopped" by auto
        show ?thesis
        proof (cases "workers s ! i = Fetching \<and> buf (jobs s) = []")
          case True
          with jfull caps have "cap (jobs s) = 0" by simp
          with True nc MSend pend open_j i hand_job_enabled [of s i ?tf]
          show ?thesis by blast
        next
          case False
          with nc i ne ns worker_enabled [of s i ?tf] show ?thesis by blast
        qed
      next
        case all_emit: False
        show ?thesis
        proof (cases "length (buf (results s)) < cap (results s)")
          case True
          from bound open_j lw have pos: "0 < length (workers s)" by simp
          with all_emit obtain v where "workers s ! 0 = Emitting v" by auto
          with nc True pos worker_enabled [of s 0 ?tf] show ?thesis by auto
        next
          case rfull: False
          have "\<And>x. x \<in> set (workers s) \<Longrightarrow> \<exists>v. x = Emitting v"
            using all_emit by (auto simp: in_set_conv_nth)
          then have "size (in_flight f (workers s)) = length (workers s)"
            by (rule in_flight_all_emitting)
          moreover from inv have "size (accounted f s) = length js"
            by (simp add: pool_inv_def)
          moreover from pend have "1 \<le> length (pending s)"
            by (cases "pending s") simp_all
          moreover from rfull caps lens have "length (buf (results s)) = rc" by simp
          ultimately have "qc + w + rc < length js"
            using jfull lw unfolding size_accounted by linarith
          with bound open_j show ?thesis by simp
        qed
      qed
    qed
  next
    case MRead
    with inv have closed_j: "is_closed (jobs s)" and started: "closer s \<noteq> CNone"
      and res: "is_closed (results s) \<longleftrightarrow> closer s = CDone"
      and wgl: "wg s = live (workers s)" and caps: "cap (results s) = rc"
      by (auto simp: pool_inv_def)
    show ?thesis
    proof (cases "buf (results s) \<noteq> [] \<or> is_closed (results s)")
      case True
      with nc MRead main_enabled [of s ?tf] show ?thesis by auto
    next
      case False
      then have rempty: "buf (results s) = []" and open_r: "\<not> is_closed (results s)"
        by auto
      show ?thesis
      proof (cases "closer s = CClose \<or> wg s = 0")
        case True
        with started res open_r have "closer s = CClose \<or> (closer s = CWait \<and> wg s = 0)"
          by (cases "closer s") auto
        with nc closer_enabled [of s ?tf] show ?thesis by blast
      next
        case False
        with wgl have "\<not> list_all (\<lambda>x. x = Stopped) (workers s)"
          by (simp add: live_zero)
        then obtain i where i: "i < length (workers s)" and ns: "workers s ! i \<noteq> Stopped"
          by (auto simp: list_all_length)
        show ?thesis
        proof (cases "(\<exists>v. workers s ! i = Emitting v) \<and> rc = 0")
          case True
          with nc MRead caps open_r i hand_result_enabled [of s i _ ?tf]
          show ?thesis by blast
        next
          case False
          then have "\<And>v. workers s ! i = Emitting v \<Longrightarrow>
              length (buf (results s)) < cap (results s)"
            using rempty caps by auto
          with nc i ns closed_j worker_enabled [of s i ?tf] show ?thesis by blast
        qed
      qed
    qed
  qed
qed

subsection \<open>Every run ends\<close>

lemma jobs_stay_closed:
  assumes "exec tf a s = Some s'" "is_closed (jobs s)"
  shows "is_closed (jobs s')"
proof -
  have nc: "crashed s = None" using assms(1) by (rule exec_not_crashed)
  show ?thesis
  proof (cases a)
    case Main
    with assms nc have "main_step s = Some s'" by (simp add: exec_def)
    then show ?thesis using assms(2)
      by (cases rule: main_step_cases) (simp_all add: crash_def)
  next
    case (Worker i)
    with assms nc have "worker tf i s = Some s'" by (simp add: exec_def)
    then show ?thesis using assms(2)
      by (cases rule: worker_cases) (simp_all add: crash_def)
  next
    case Closer
    with assms nc have "closer_step s = Some s'" by (simp add: exec_def)
    then show ?thesis using assms(2)
      by (cases rule: closer_step_cases) (simp_all add: crash_def)
  next
    case (HandJob i)
    with assms nc have "hand_job i s = Some s'" by (simp add: exec_def)
    then show ?thesis using assms(2)
      by (cases rule: hand_job_cases) simp
  next
    case (HandResult i)
    with assms nc have "hand_result i s = Some s'" by (simp add: exec_def)
    then show ?thesis using assms(2)
      by (cases rule: hand_result_cases) simp
  qed
qed

lemma inevitably_mono:
  assumes "inevitably tf P s" and "\<And>s. P s \<Longrightarrow> Q s"
  shows "inevitably tf Q s"
  using assms(1)
proof (induction rule: inevitably.induct)
  case (now s)
  then show ?case by (intro inevitably.now assms(2))
next
  case (later s)
  show ?case
  proof (rule inevitably.later)
    show "\<exists>a s'. exec tf a s = Some s'" by (rule later(1))
  next
    fix a s' assume "exec tf a s = Some s'"
    then show "inevitably tf Q s'" by (rule later(3))
  qed
qed

lemma inevitably_done:
  assumes "pool_inv w qc rc f js s"
    and "(1 \<le> w \<and> length js \<le> qc + w + rc) \<or> is_closed (jobs s)"
  shows "inevitably (returning f) (\<lambda>t. pool_inv w qc rc f js t \<and> pc t = MDone) s"
  using assms
proof (induction "steps_left s" arbitrary: s rule: less_induct)
  case less
  show ?case
  proof (cases "pc s = MDone")
    case True
    with less.prems show ?thesis by (intro inevitably.now) simp
  next
    case False
    show ?thesis
    proof (rule inevitably.later)
      show "\<exists>a s'. exec (returning f) a s = Some s'"
        using pool_progress [OF less.prems(1) False less.prems(2)] .
    next
      fix a s' assume ex: "exec (returning f) a s = Some s'"
      show "inevitably (returning f) (\<lambda>t. pool_inv w qc rc f js t \<and> pc t = MDone) s'"
      proof (rule less.hyps)
        show "steps_left s' < steps_left s" using ex by (rule steps_left_decreases)
        show "pool_inv w qc rc f js s'" using less.prems(1) ex by (rule pool_inv_step)
        show "(1 \<le> w \<and> length js \<le> qc + w + rc) \<or> is_closed (jobs s')"
          using less.prems(2) jobs_stay_closed [OF ex] by blast
      qed
    qed
  qed
qed

lemma done_complete:
  assumes inv: "pool_inv w qc rc f js s" and d: "pc s = MDone"
  shows "all_stopped s" and "is_closed (results s)" and "buf (results s) = []"
    and "1 \<le> w \<Longrightarrow> mset (workerResults s) = image_mset f (mset js)"
proof -
  from inv d have cl: "is_closed (results s)" and re: "buf (results s) = []"
    and "wg s = 0" and wgl: "wg s = live (workers s)" and pe: "pending s = []"
    and lw: "length (workers s) = w"
    and st: "Stopped \<in> set (workers s) \<longrightarrow> buf (jobs s) = []"
    and acc: "accounted f s = image_mset f (mset js)"
    by (auto simp: pool_inv_def)
  then have all: "list_all (\<lambda>x. x = Stopped) (workers s)"
    by (simp add: live_zero)
  then show "all_stopped s" by (simp add: all_stopped_def)
  show "is_closed (results s)" by fact
  show "buf (results s) = []" by fact
  assume "1 \<le> w"
  with lw obtain x xs where "workers s = x # xs" by (cases "workers s") auto
  with all have "Stopped \<in> set (workers s)" by simp
  with st have "buf (jobs s) = []" by simp
  with acc pe re in_flight_all_stopped [OF all, of f]
  show "mset (workerResults s) = image_mset f (mset js)"
    by (simp add: accounted_def)
qed

subsection \<open>Runs of the source program\<close>

lemma double_returning: "double = returning (\<lambda>job. job * 2)"
  by (rule ext) (simp add: double_def returning_def)

lemma run_reachable: "run tf as s0 = Some s \<Longrightarrow> reachable tf s0 s"
proof (induction as arbitrary: s rule: rev_induct)
  case Nil
  then show ?case by (simp add: reachable.start)
next
  case (snoc a as)
  have split: "run tf (as @ [a]) s0 = (case run tf as s0 of None \<Rightarrow> None | Some t \<Rightarrow> exec tf a t)"
    for as
  proof -
    have "run tf (as @ [a]) t0 = (case run tf as t0 of None \<Rightarrow> None | Some t \<Rightarrow> exec tf a t)"
      for t0
      by (induction as arbitrary: t0) (auto split: option.splits)
    then show ?thesis .
  qed
  from snoc.prems obtain t where "run tf as s0 = Some t" "exec tf a t = Some s"
    by (auto simp: split split: option.splits)
  with snoc.IH show ?case by (auto intro: reachable.step)
qed

lemma exec_candidates: "exec tf a s = Some s' \<Longrightarrow> a \<in> set (candidates s)"
proof (cases a)
  case (Worker i)
  assume "exec tf a s = Some s'"
  with Worker have "worker tf i s = Some s'" by (auto simp: exec_def split: if_splits)
  then have "i < length (workers s)" by (cases rule: worker_cases)
  with Worker show ?thesis by (auto simp: candidates_def)
next
  case (HandJob i)
  assume "exec tf a s = Some s'"
  with HandJob have "hand_job i s = Some s'" by (auto simp: exec_def split: if_splits)
  then have "i < length (workers s)" by (cases rule: hand_job_cases)
  with HandJob show ?thesis by (auto simp: candidates_def)
next
  case (HandResult i)
  assume "exec tf a s = Some s'"
  with HandResult have "hand_result i s = Some s'" by (auto simp: exec_def split: if_splits)
  then have "i < length (workers s)" by (cases rule: hand_result_cases)
  with HandResult show ?thesis by (auto simp: candidates_def)
qed (simp_all add: candidates_def)

lemma enabled_Nil_iff: "enabled tf s = [] \<longleftrightarrow> (\<forall>a. exec tf a s = None)"
proof
  assume e: "enabled tf s = []"
  show "\<forall>a. exec tf a s = None"
  proof
    fix a
    show "exec tf a s = None"
    proof (cases "exec tf a s")
      case (Some s')
      then have "a \<in> set (candidates s)" by (rule exec_candidates)
      with Some have "a \<in> set (enabled tf s)" by (simp add: enabled_def)
      with e show ?thesis by simp
    qed simp
  qed
next
  assume "\<forall>a. exec tf a s = None"
  then show "enabled tf s = []" by (simp add: enabled_def)
qed

lemma run_in_order: "run double in_order source_pool = Some (finished [2, 4, 6, 8, 10])"
  by code_simp

lemma run_overtaking: "run double overtaking source_pool = Some (finished [4, 2, 6, 8, 10])"
  by code_simp

lemma run_joined: "run double joined source_pool = Some joined_pool"
  by code_simp

lemma run_filling_up: "run double filling_up (init 1 5 5 twelve_jobs) = Some stuck_pool"
  by code_simp

lemma run_draining: "run double draining source_pool = Some drained_pool"
  by code_simp

lemma run_sending_done: "run double sending_done source_pool = Some loaded_pool"
  by code_simp

subsection \<open>Every job gives exactly one result\<close>


lemma inevitably_complete:
  assumes "1 \<le> w" "length js \<le> qc + w + rc"
  shows "inevitably (returning f)
           (\<lambda>t. pc t = MDone \<and> mset (workerResults t) = image_mset f (mset js))
           (init w qc rc js)"
proof (rule inevitably_mono)
  show "inevitably (returning f) (\<lambda>t. pool_inv w qc rc f js t \<and> pc t = MDone) (init w qc rc js)"
    using assms by (intro inevitably_done pool_inv_init) simp
next
  fix t assume "pool_inv w qc rc f js t \<and> pc t = MDone"
  then have "pool_inv w qc rc f js t" "pc t = MDone" by simp_all
  from this done_complete(4) [OF this assms(1)]
  show "pc t = MDone \<and> mset (workerResults t) = image_mset f (mset js)" by simp
qed




text \<open>
  From its first state the source program reaches the closing of the job channel in every
  run, since its five jobs fit into the job channel. A caller with more jobs than the
  channels and the workers can hold, which like \<open>main\<close> sends every job before it reads a
  result, does not: with one worker and twelve jobs the run \<open>filling_up\<close> ends in a state
  where no action is enabled, \<open>main\<close> waiting to send job 12. The jobs sent so far are still
  accounted for exactly once.
\<close>

lemma sender_blocks_with_twelve_jobs:
  "run double filling_up (init 1 5 5 twelve_jobs) = Some stuck_pool \<and>
   enabled double stuck_pool = []"
  by code_simp

subsection \<open>The scenario of the source\<close>

text \<open>
  Claim C2, as amended. In the scenario of the source (3 workers, both capacities 5, doubling,
  the jobs 1 to 5, the job channel closed after the last job) every run ends with \<open>main\<close>
  having read the result channel to its end, and the results collected then are a permutation
  of 2, 4, 6, 8, 10. There is no ordered mode: the order is the order of completion.
\<close>

theorem source_results_permutation:
  "inevitably double
     (\<lambda>t. pc t = MDone \<and> mset (workerResults t) = mset [2, 4, 6, 8, 10]) source_pool \<and>
   (reachable double source_pool s \<and> pc s = MDone \<longrightarrow>
      mset (workerResults s) = mset [2, 4, 6, 8, 10])"
proof
  have "inevitably (returning (\<lambda>job. job * 2))
      (\<lambda>t. pc t = MDone \<and>
           mset (workerResults t) = image_mset (\<lambda>job. job * 2) (mset [1, 2, 3, 4, 5]))
      (init 3 5 5 [1, 2, 3, 4, 5])"
    by (rule inevitably_complete) simp_all
  then show "inevitably double
      (\<lambda>t. pc t = MDone \<and> mset (workerResults t) = mset [2, 4, 6, 8, 10]) source_pool"
    by (simp add: double_returning source_pool_def)
next
  show "reachable double source_pool s \<and> pc s = MDone \<longrightarrow>
      mset (workerResults s) = mset [2, 4, 6, 8, 10]"
  proof
    assume a: "reachable double source_pool s \<and> pc s = MDone"
    then have "pool_inv 3 5 5 (\<lambda>job. job * 2) [1, 2, 3, 4, 5] s"
      by (intro pool_inv_reachable) (simp add: double_returning source_pool_def)
    moreover from a have "pc s = MDone" ..
    moreover have "(1::nat) \<le> 3" by simp
    ultimately
    have "mset (workerResults s) = image_mset (\<lambda>job. job * 2) (mset [1, 2, 3, 4, 5])"
      by (rule done_complete(4))
    then show "mset (workerResults s) = mset [2, 4, 6, 8, 10]" by simp
  qed
qed

text \<open>The theorem of C2 at the end of the run in which worker 1 overtakes worker 0.\<close>

theorem source_results_permutation_witness:
  "reachable double source_pool (finished [4, 2, 6, 8, 10]) \<and>
   pc (finished [4, 2, 6, 8, 10]) = MDone \<and>
   mset (workerResults (finished [4, 2, 6, 8, 10])) = mset [2, 4, 6, 8, 10] \<and>
   inevitably double
     (\<lambda>t. pc t = MDone \<and> mset (workerResults t) = mset [2, 4, 6, 8, 10]) source_pool"
proof -
  have r: "reachable double source_pool (finished [4, 2, 6, 8, 10])"
    using run_overtaking by (rule run_reachable)
  have d: "pc (finished [4, 2, 6, 8, 10]) = MDone" by (simp add: finished_def)
  show ?thesis
    using source_results_permutation [of "finished [4, 2, 6, 8, 10]"] r d by simp
qed

text \<open>
  Claim C2 as stated fails in its second half: the program has one mode, and its results need
  not come in the order of the jobs. In the run \<open>overtaking\<close> worker 1 delivers the result of
  job 2 before worker 0 delivers the result of job 1.
\<close>

theorem source_results_out_of_order:
  "run double overtaking source_pool = Some (finished [4, 2, 6, 8, 10]) \<and>
   workerResults (finished [4, 2, 6, 8, 10]) \<noteq> [2, 4, 6, 8, 10]"
  by code_simp

subsection \<open>Closing the result channel\<close>

lemma closed_results_all_stopped:
  assumes "pool_inv w qc rc f js s" "is_closed (results s) \<or> closer s = CClose"
  shows "all_stopped s"
proof -
  from assms have "live (workers s) = 0" by (auto simp: pool_inv_def)
  then show ?thesis by (simp add: live_zero all_stopped_def)
qed

lemma inevitably_joined:
  assumes "pool_inv w qc rc f js s" "is_closed (jobs s)"
  shows "inevitably (returning f) (\<lambda>t. is_closed (results t) \<and> all_stopped t) s"
proof (rule inevitably_mono)
  show "inevitably (returning f) (\<lambda>t. pool_inv w qc rc f js t \<and> pc t = MDone) s"
    using assms by (intro inevitably_done) simp_all
next
  fix t assume "pool_inv w qc rc f js t \<and> pc t = MDone"
  then have "pool_inv w qc rc f js t" "pc t = MDone" by simp_all
  then show "is_closed (results t) \<and> all_stopped t"
    by (simp add: done_complete(1,2))
qed

text \<open>
  Claim C3, as amended. The result channel is closed only if every worker has terminated:
  the closing goroutine reaches \<open>close(results)\<close> only after \<open>wg.Wait\<close> has seen the counter at
  zero, so in no reachable state is the result channel closed while a worker is still running.
  The converse holds eventually, not at every instant: once the job channel has been closed,
  every run reaches a state in which all workers have terminated and the result channel is
  closed.
\<close>

theorem result_channel_closed_only_after_join:
  "reachable (returning f) (init w qc rc js) s \<Longrightarrow>
     (is_closed (results s) \<longrightarrow> all_stopped s \<and> length (workers s) = w) \<and>
     (closer s = CClose \<longrightarrow> all_stopped s) \<and>
     (is_closed (jobs s) \<longrightarrow>
        inevitably (returning f) (\<lambda>t. is_closed (results t) \<and> all_stopped t) s)"
proof -
  assume "reachable (returning f) (init w qc rc js) s"
  then have inv: "pool_inv w qc rc f js s" by (rule pool_inv_reachable)
  have "length (workers s) = w" if "is_closed (results s)"
  proof -
    from inv that have "reading (pc s)" "length (workers s) + to_spawn (pc s) = w"
      by (auto simp: pool_inv_def)
    then show ?thesis by (cases "pc s") simp_all
  qed
  with inv show ?thesis
    by (auto intro: closed_results_all_stopped inevitably_joined)
qed

text \<open>
  The theorem of C3 on the source program: at the end of a run (result channel closed), when
  the closing goroutine has returned from \<open>wg.Wait()\<close>, and right after the last worker has
  returned (job channel closed).
\<close>

theorem result_channel_closed_only_after_join_witness:
  "reachable double source_pool (finished [2, 4, 6, 8, 10]) \<and>
   is_closed (results (finished [2, 4, 6, 8, 10])) \<and>
   all_stopped (finished [2, 4, 6, 8, 10]) \<and>
   length (workers (finished [2, 4, 6, 8, 10])) = 3 \<and>
   reachable double source_pool (joined_pool\<lparr>closer := CClose\<rparr>) \<and>
   closer (joined_pool\<lparr>closer := CClose\<rparr>) = CClose \<and>
   all_stopped (joined_pool\<lparr>closer := CClose\<rparr>) \<and>
   reachable double source_pool joined_pool \<and>
   is_closed (jobs joined_pool) \<and>
   inevitably double (\<lambda>t. is_closed (results t) \<and> all_stopped t) joined_pool"
proof -
  have r1: "reachable double source_pool (finished [2, 4, 6, 8, 10])"
    using run_in_order by (rule run_reachable)
  have r2: "reachable double source_pool joined_pool"
    using run_joined by (rule run_reachable)
  have "exec double Closer joined_pool = Some (joined_pool\<lparr>closer := CClose\<rparr>)"
    by (simp add: exec_def closer_step_def joined_pool_def)
  with r2 have r3: "reachable double source_pool (joined_pool\<lparr>closer := CClose\<rparr>)"
    by (rule reachable.step)
  have c: "is_closed (results (finished [2, 4, 6, 8, 10]))" "is_closed (jobs joined_pool)"
    "closer (joined_pool\<lparr>closer := CClose\<rparr>) = CClose"
    by (simp_all add: finished_def joined_pool_def)
  from result_channel_closed_only_after_join
      [of "\<lambda>job. job * 2" 3 5 5 "[1, 2, 3, 4, 5]" "finished [2, 4, 6, 8, 10]"] r1 c
  have 1: "all_stopped (finished [2, 4, 6, 8, 10])"
    "length (workers (finished [2, 4, 6, 8, 10])) = 3"
    by (simp_all add: double_returning source_pool_def)
  from result_channel_closed_only_after_join
      [of "\<lambda>job. job * 2" 3 5 5 "[1, 2, 3, 4, 5]" "joined_pool\<lparr>closer := CClose\<rparr>"] r3 c
  have 2: "all_stopped (joined_pool\<lparr>closer := CClose\<rparr>)"
    by (simp add: double_returning source_pool_def)
  from result_channel_closed_only_after_join
      [of "\<lambda>job. job * 2" 3 5 5 "[1, 2, 3, 4, 5]" joined_pool] r2 c
  have 3: "inevitably double (\<lambda>t. is_closed (results t) \<and> all_stopped t) joined_pool"
    by (simp add: double_returning source_pool_def)
  from r1 r2 r3 c 1 2 3 show ?thesis by simp
qed

text \<open>
  Claim C3 as stated fails in one direction: right after the last worker has returned, every
  worker has terminated and the result channel is still open, until the closing goroutine
  runs.
\<close>

theorem all_stopped_before_close:
  "run double joined source_pool = Some joined_pool \<and>
   all_stopped joined_pool \<and> \<not> is_closed (results joined_pool)"
  by code_simp

subsection \<open>The end of a worker\<close>

lemma worker_stops_when_drained:
  assumes "pool_inv w qc rc f js s" "i < length (workers s)" "workers s ! i = Fetching"
  shows "(\<exists>s'. exec (returning f) (Worker i) s = Some s' \<and> workers s' ! i = Stopped) \<longleftrightarrow>
         is_closed (jobs s) \<and> buf (jobs s) = []"
proof
  assume "\<exists>s'. exec (returning f) (Worker i) s = Some s' \<and> workers s' ! i = Stopped"
  then obtain s' where ex: "exec (returning f) (Worker i) s = Some s'"
    and st: "workers s' ! i = Stopped" by blast
  from ex exec_not_crashed [OF ex] have "worker (returning f) i s = Some s'"
    by (simp add: exec_Worker)
  then show "is_closed (jobs s) \<and> buf (jobs s) = []"
    using assms(2,3) st by (cases rule: worker_cases) (simp_all add: crash_def)
next
  assume c: "is_closed (jobs s) \<and> buf (jobs s) = []"
  from assms have nc: "crashed s = None" and "wg s = live (workers s)"
    by (simp_all add: pool_inv_def)
  with assms(2,3) live_pos [of i "workers s"] have "wg s \<noteq> 0" by simp
  with c nc assms(2,3)
  have "exec (returning f) (Worker i) s =
      Some (s\<lparr>workers := (workers s)[i := Stopped], wg := wg s - 1\<rparr>)"
    by (simp add: exec_def worker_def chan_recv_def)
  with assms(2) show "\<exists>s'. exec (returning f) (Worker i) s = Some s' \<and> workers s' ! i = Stopped"
    by simp
qed

lemma worker_stops_only_when_drained:
  assumes ex: "exec tf a s = Some s'" and i: "i < length (workers s)"
    and before: "workers s ! i \<noteq> Stopped" and after: "workers s' ! i = Stopped"
  shows "a = Worker i \<and> workers s ! i = Fetching \<and> is_closed (jobs s) \<and> buf (jobs s) = []"
proof -
  have nc: "crashed s = None" using ex by (rule exec_not_crashed)
  show ?thesis
  proof (cases a)
    case Main
    with ex nc have "main_step s = Some s'" by (simp add: exec_def)
    then show ?thesis using i before after
      by (cases rule: main_step_cases) (simp_all add: crash_def nth_append)
  next
    case (Worker k)
    with ex nc have "worker tf k s = Some s'" by (simp add: exec_def)
    then show ?thesis using i before after Worker
      by (cases rule: worker_cases) (auto simp: crash_def nth_list_update split: if_splits)
  next
    case Closer
    with ex nc have "closer_step s = Some s'" by (simp add: exec_def)
    then show ?thesis using i before after
      by (cases rule: closer_step_cases) (simp_all add: crash_def)
  next
    case (HandJob k)
    with ex nc have "hand_job k s = Some s'" by (simp add: exec_def)
    then show ?thesis using i before after
      by (cases rule: hand_job_cases) (auto simp: nth_list_update split: if_splits)
  next
    case (HandResult k)
    with ex nc have "hand_result k s = Some s'" by (simp add: exec_def)
    then show ?thesis using i before after
      by (cases rule: hand_result_cases) (auto simp: nth_list_update split: if_splits)
  qed
qed

lemma inevitably_all_stopped:
  assumes "pool_inv w qc rc f js s" "is_closed (jobs s)"
  shows "inevitably (returning f) all_stopped s"
  using inevitably_joined [OF assms] by (rule inevitably_mono) simp

text \<open>
  Claim C4, as amended. A worker waiting for a job leaves its loop exactly when the job
  channel is closed and empty: in every reachable state, the step of a fetching worker takes
  it to \<open>Stopped\<close> if and only if the channel is closed and empty, and no other step of the
  program stops a worker. There is no cancellation signal: nothing else stops a worker. Once
  the job channel has been closed, every run reaches a state in which all workers have
  terminated.
\<close>

theorem worker_stops_iff_queue_closed_and_empty:
  "reachable (returning f) (init w qc rc js) s \<Longrightarrow>
     (\<forall>i < length (workers s). workers s ! i = Fetching \<longrightarrow>
        ((\<exists>s'. exec (returning f) (Worker i) s = Some s' \<and> workers s' ! i = Stopped) \<longleftrightarrow>
         is_closed (jobs s) \<and> buf (jobs s) = [])) \<and>
     (\<forall>a s' i. exec (returning f) a s = Some s' \<and> i < length (workers s) \<and>
        workers s ! i \<noteq> Stopped \<and> workers s' ! i = Stopped \<longrightarrow>
        a = Worker i \<and> workers s ! i = Fetching \<and> is_closed (jobs s) \<and> buf (jobs s) = []) \<and>
     (is_closed (jobs s) \<longrightarrow> inevitably (returning f) all_stopped s)"
proof -
  assume "reachable (returning f) (init w qc rc js) s"
  then have inv: "pool_inv w qc rc f js s" by (rule pool_inv_reachable)
  show ?thesis
  proof (intro conjI allI impI)
    fix i assume "i < length (workers s)" "workers s ! i = Fetching"
    with inv show "(\<exists>s'. exec (returning f) (Worker i) s = Some s' \<and> workers s' ! i = Stopped) \<longleftrightarrow>
        is_closed (jobs s) \<and> buf (jobs s) = []"
      by (rule worker_stops_when_drained)
  next
    fix a s' i
    assume "exec (returning f) a s = Some s' \<and> i < length (workers s) \<and>
        workers s ! i \<noteq> Stopped \<and> workers s' ! i = Stopped"
    then have *: "a = Worker i \<and> workers s ! i = Fetching \<and>
        is_closed (jobs s) \<and> buf (jobs s) = []"
      using worker_stops_only_when_drained [of "returning f" a s s' i] by blast
    from * show "a = Worker i" by simp
    from * show "workers s ! i = Fetching" by simp
    from * show "is_closed (jobs s)" by simp
    from * show "buf (jobs s) = []" by simp
  next
    assume "is_closed (jobs s)"
    with inv show "inevitably (returning f) all_stopped s" by (rule inevitably_all_stopped)
  qed
qed

text \<open>
  The theorem of C4 on the source program, after the last job has been handled: worker 0
  finds the job channel closed and empty and stops, and all workers stop in every run.
\<close>

theorem worker_stops_iff_queue_closed_and_empty_witness:
  "reachable double source_pool drained_pool \<and>
   0 < length (workers drained_pool) \<and> workers drained_pool ! 0 = Fetching \<and>
   workers drained_pool ! 0 \<noteq> Stopped \<and>
   is_closed (jobs drained_pool) \<and> buf (jobs drained_pool) = [] \<and>
   exec double (Worker 0) drained_pool =
     Some (drained_pool\<lparr>workers := [Stopped, Fetching, Fetching], wg := 2\<rparr>) \<and>
   workers (drained_pool\<lparr>workers := [Stopped, Fetching, Fetching], wg := 2\<rparr>) ! 0 = Stopped \<and>
   (\<exists>s'. exec double (Worker 0) drained_pool = Some s' \<and> workers s' ! 0 = Stopped) \<and>
   inevitably double all_stopped drained_pool"
proof -
  let ?s' = "drained_pool\<lparr>workers := [Stopped, Fetching, Fetching], wg := 2\<rparr>"
  have r: "reachable double source_pool drained_pool"
    using run_draining by (rule run_reachable)
  have c: "0 < length (workers drained_pool)" "workers drained_pool ! 0 = Fetching"
    "workers drained_pool ! 0 \<noteq> Stopped"
    "is_closed (jobs drained_pool)" "buf (jobs drained_pool) = []"
    "workers ?s' ! 0 = Stopped"
    by (simp_all add: drained_pool_def)
  have e: "exec double (Worker 0) drained_pool = Some ?s'"
    by (simp add: exec_def worker_def chan_recv_def drained_pool_def)
  from r have "reachable (returning (\<lambda>job. job * 2)) (init 3 5 5 [1, 2, 3, 4, 5]) drained_pool"
    by (simp add: double_returning source_pool_def)
  note th = worker_stops_iff_queue_closed_and_empty [OF this, folded double_returning]
  from th c have "\<exists>s'. exec double (Worker 0) drained_pool = Some s' \<and> workers s' ! 0 = Stopped"
    by blast
  moreover from th c have "inevitably double all_stopped drained_pool" by blast
  ultimately show ?thesis using r c e by simp
qed

text \<open>
  Claim C4 as stated fails in its second alternative: \<open>worker\<close> observes no cancellation
  signal. In the source program, when \<open>main\<close> has sent the five jobs, worker 0 is between jobs;
  with the signal raised the condition of the specification holds, and the next step of the
  worker takes job 1 from the open job channel instead of stopping.
\<close>

theorem worker_ignores_cancellation:
  "run double sending_done source_pool = Some loaded_pool \<and>
   workers loaded_pool ! 0 = Fetching \<and>
   spec_stop_condition True loaded_pool \<and>
   \<not> stops_next double 0 loaded_pool \<and>
   exec double (Worker 0) loaded_pool =
     Some (loaded_pool\<lparr>jobs := \<lparr>buf = [2, 3, 4, 5], cap = 5, is_closed = False\<rparr>,
                      workers := [Processing 1, Fetching, Fetching]\<rparr>)"
  by code_simp

subsection \<open>What the program never does\<close>

text \<open>
  \<open>main\<close> sends only on an open job channel, and the program never panics: whenever \<open>main\<close> is
  in its sending loop the job channel is open, and no reachable state has crashed. A send on
  a closed channel would panic; no run contains one.
\<close>

lemma main_sends_on_open_channel:
  assumes "reachable (returning f) (init w qc rc js) s" "pc s = MSend"
  shows "\<not> is_closed (jobs s)"
proof -
  from assms(1) have "pool_inv w qc rc f js s" by (rule pool_inv_reachable)
  with assms(2) show ?thesis by (simp add: pool_inv_def)
qed

lemma program_never_panics:
  assumes "reachable (returning f) (init w qc rc js) s"
  shows "crashed s = None"
proof -
  from assms have "pool_inv w qc rc f js s" by (rule pool_inv_reachable)
  then show ?thesis by (simp add: pool_inv_def)
qed

subsection \<open>One job in a worker\<close>

text \<open>
  A worker that takes a job applies the transform to it once, sends that one value to the
  result channel and is back at the head of its loop, with nothing else changed. The
  transform of the source is the doubling.
\<close>

lemma double_value: "double job = Inr (job * 2)"
  by (simp add: double_def)

lemma worker_round:
  assumes nc: "crashed s = None" and i: "i < length (workers s)"
    and a: "workers s ! i = Fetching" "buf (jobs s) = job # rest" "tf job = Inr v"
      "\<not> is_closed (results s)" "length (buf (results s)) < cap (results s)"
  shows "run tf [Worker i, Worker i, Worker i] s =
           Some (s\<lparr>jobs := (jobs s)\<lparr>buf := rest\<rparr>,
                   results := (results s)\<lparr>buf := buf (results s) @ [v]\<rparr>\<rparr>)"
proof -
  let ?s1 = "s\<lparr>jobs := (jobs s)\<lparr>buf := rest\<rparr>, workers := (workers s)[i := Processing job]\<rparr>"
  let ?s2 = "?s1\<lparr>workers := (workers ?s1)[i := Emitting v]\<rparr>"
  let ?s3 = "?s2\<lparr>results := (results ?s2)\<lparr>buf := buf (results ?s2) @ [v]\<rparr>,
    workers := (workers ?s2)[i := Fetching]\<rparr>"
  from a nc i have 1: "exec tf (Worker i) s = Some ?s1"
    by (simp add: exec_def worker_def chan_recv_def)
  from a nc i have 2: "exec tf (Worker i) ?s1 = Some ?s2"
    by (simp add: exec_def worker_def)
  from a nc i have 3: "exec tf (Worker i) ?s2 = Some ?s3"
    by (simp add: exec_def worker_def chan_send_def)
  from a have "(workers s)[i := Fetching] = workers s"
    by (metis list_update_id)
  then have "?s3 = s\<lparr>jobs := (jobs s)\<lparr>buf := rest\<rparr>,
      results := (results s)\<lparr>buf := buf (results s) @ [v]\<rparr>\<rparr>"
    by simp
  with 1 2 3 show ?thesis by simp
qed

end
